theory Spec2Isabelle
  imports Main "HOL-Library.Char_ord" "HOL-Library.List_Lexorder"
begin

section \<open>Paths: the string operations of the source\<close>

text \<open>
  Virtual paths and disk paths are Python strings, modelled as \<open>string\<close>.
  \<open>endswith_slash p\<close> is \<^verbatim>\<open>p.endswith("/")\<close>, \<open>strip_slash\<close> is the idiom
  \<^verbatim>\<open>if p.endswith("/"): p = p[:-1]\<close>, \<open>split_head p\<close> is \<^verbatim>\<open>os.path.split(p)[0]\<close>
  of posixpath: everything up to the last slash, with trailing slashes removed unless
  the head consists of slashes only. \<open>path_join a b\<close> is \<^verbatim>\<open>os.path.join(a, b)\<close>.
\<close>

definition endswith_slash :: "string \<Rightarrow> bool" where
  "endswith_slash p = (p \<noteq> [] \<and> last p = CHR ''/'')"

definition strip_slash :: "string \<Rightarrow> string" where
  "strip_slash p = (if endswith_slash p then butlast p else p)"

definition rstrip_slash :: "string \<Rightarrow> string" where
  "rstrip_slash p = rev (dropWhile (\<lambda>c. c = CHR ''/'') (rev p))"

definition split_head :: "string \<Rightarrow> string" where
  "split_head p =
     (let head = rev (dropWhile (\<lambda>c. c \<noteq> CHR ''/'') (rev p))
      in if head \<noteq> [] \<and> \<not> list_all (\<lambda>c. c = CHR ''/'') head
         then rstrip_slash head else head)"

definition startswith_slash :: "string \<Rightarrow> bool" where
  "startswith_slash p = (case p of [] \<Rightarrow> False | c # _ \<Rightarrow> c = CHR ''/'')"

definition path_join :: "string \<Rightarrow> string \<Rightarrow> string" where
  "path_join a b =
     (if startswith_slash b then b
      else if a = [] \<or> endswith_slash a then a @ b
      else a @ ''/'' @ b)"

text \<open>\<^verbatim>\<open>s.split("/")\<close>: the pieces between slashes, empty pieces included.\<close>

fun split_slash :: "string \<Rightarrow> string list" where
  "split_slash [] = [[]]"
| "split_slash (c # cs) =
     (if c = CHR ''/'' then [] # split_slash cs
      else (case split_slash cs of [] \<Rightarrow> [[c]] | x # xs \<Rightarrow> (c # x) # xs))"

section \<open>Errors and results\<close>

text \<open>
  Every exception the modelled code can raise is a value. \<open>OSError\<close> stands for the
  subclasses the file system raises (IsADirectoryError, FileNotFoundError,
  FileExistsError, NotADirectoryError). The client of the store raises \<open>ClientError\<close>
  for an error response of the store, \<open>ParamValidationError\<close> for a request whose
  parameters it refuses to send, and \<open>EndpointConnectionError\<close> when it cannot reach
  the store; the last two are no subclasses of ClientError. An operation returns the
  error or the value, together with the state it leaves behind: a raise does not undo
  earlier mutations.
\<close>

datatype exn = KeyError | ValueError | TypeError | OSError | ClientError | NotFoundException
  | ParamValidationError | EndpointConnectionError

type_synonym ('a, 's) result = "(exn + 'a) \<times> 's"

section \<open>The local disk\<close>

text \<open>
  The disk is a table from normalised paths to nodes. A path string is normalised to
  its absolute flag and its non-empty components, so that \<^verbatim>\<open>cache/a/b/\<close> and
  \<^verbatim>\<open>cache/a/b\<close> name the same node; the components \<^verbatim>\<open>.\<close> and \<^verbatim>\<open>..\<close> are not
  interpreted. The root and the working directory always exist.
\<close>

datatype node = File string | Dir

type_synonym dpath = "bool \<times> string list"

type_synonym disk = "(dpath \<times> node) list"

definition dkey :: "string \<Rightarrow> dpath" where
  "dkey p = (startswith_slash p, filter (\<lambda>c. c \<noteq> []) (split_slash p))"

definition disk_set :: "dpath \<Rightarrow> node \<Rightarrow> disk \<Rightarrow> disk" where
  "disk_set k n d = filter (\<lambda>(k', _). k' \<noteq> k) d @ [(k, n)]"

definition isdir :: "disk \<Rightarrow> dpath \<Rightarrow> bool" where
  "isdir d k = (snd k = [] \<or> map_of d k = Some Dir)"

definition isfile :: "disk \<Rightarrow> dpath \<Rightarrow> bool" where
  "isfile d k = (case map_of d k of Some (File _) \<Rightarrow> True | _ \<Rightarrow> False)"

definition dparent :: "dpath \<Rightarrow> dpath" where
  "dparent k = (fst k, butlast (snd k))"

text \<open>
  \<^verbatim>\<open>os.makedirs(name, exist_ok=True)\<close>: creates every missing directory on the way
  to \<open>name\<close>; fails when \<open>name\<close> is empty or when a file is in the way.
\<close>

definition os_makedirs :: "string \<Rightarrow> disk \<Rightarrow> exn + disk" where
  "os_makedirs name d =
     (let k = dkey name;
          prefixes = map (\<lambda>i. (fst k, take i (snd k))) [1 ..< Suc (length (snd k))]
      in if name = [] \<or> list_ex (isfile d) prefixes then Inl OSError
         else Inr (fold (\<lambda>p acc. if isdir acc p then acc else disk_set p Dir acc) prefixes d))"

text \<open>\<^verbatim>\<open>open(name, 'wb').write(content)\<close>.\<close>

definition os_write :: "string \<Rightarrow> string \<Rightarrow> disk \<Rightarrow> exn + disk" where
  "os_write name content d =
     (let k = dkey name
      in if name = [] \<or> endswith_slash name \<or> isdir d k \<or> \<not> isdir d (dparent k)
         then Inl OSError
         else Inr (disk_set k (File content) d))"

text \<open>\<^verbatim>\<open>open(name, 'rb').read()\<close>.\<close>

definition os_read :: "string \<Rightarrow> disk \<Rightarrow> exn + string" where
  "os_read name d =
     (if endswith_slash name then Inl OSError
      else (case map_of d (dkey name) of Some (File c) \<Rightarrow> Inr c | _ \<Rightarrow> Inl OSError))"

text \<open>\<^verbatim>\<open>os.listdir(name)\<close>: the names directly under a directory.\<close>

definition os_listdir :: "string \<Rightarrow> disk \<Rightarrow> exn + string list" where
  "os_listdir name d =
     (let k = dkey name
      in if name = [] \<or> \<not> isdir d k then Inl OSError
         else Inr (map (\<lambda>(k', _). last (snd k'))
                     (filter (\<lambda>(k', _). snd k' \<noteq> [] \<and> dparent k' = k) d)))"

text \<open>
  \<^verbatim>\<open>os.unlink(name)\<close> removes a file. On a directory, or on a path that names
  nothing, it raises: only \<^verbatim>\<open>os.rmdir\<close> removes a directory.
\<close>

definition os_unlink :: "string \<Rightarrow> disk \<Rightarrow> exn + disk" where
  "os_unlink name d =
     (let k = dkey name
      in if \<not> endswith_slash name \<and> isfile d k
         then Inr (filter (\<lambda>(k', _). k' \<noteq> k) d)
         else Inl OSError)"

section \<open>S3CacheManager.CustomLRUCache\<close>

text \<open>
  A cache value is the tuple \<^verbatim>\<open>(timestamp, disk_path, weight)\<close>; timestamps are
  points on a linear order, here integers. The state of the cache manager holds the
  fields of cachetools' \<^verbatim>\<open>Cache\<close> and \<^verbatim>\<open>LRUCache\<close>: the maximum size, the current
  size and the entries. The library keeps the values in a dict and the recency order
  in an OrderedDict with the same keys; the model keeps one association list in
  recency order, least recently used first. The size the library records for a key is
  \<^verbatim>\<open>getsizeof(value)\<close>, which \<^verbatim>\<open>_computeFileSize\<close> defines as \<^verbatim>\<open>v[2]\<close>.
  The disk belongs to the state because removal reads and changes it.
\<close>

type_synonym entry = "int \<times> string \<times> int"

record manager =
  cache_path :: string
  maxsize :: int
  currsize :: int
  cache_data :: "(string \<times> entry) list"
  disk :: disk

definition computeFileSize :: "entry \<Rightarrow> int" where
  "computeFileSize v = snd (snd v)"

definition keys :: "'a manager_scheme \<Rightarrow> string list" where
  "keys s = map fst (cache_data s)"

text \<open>\<^verbatim>\<open>key in self\<close>.\<close>

definition contains :: "string \<Rightarrow> 'a manager_scheme \<Rightarrow> bool" where
  "contains k s = (map_of (cache_data s) k \<noteq> None)"

text \<open>
  \<^verbatim>\<open>LRUCache.__update(key)\<close> moves the key to the most recently used end. The source
  calls it only for keys that are in the cache.
\<close>

definition lru_update :: "string \<Rightarrow> 'a manager_scheme \<Rightarrow> 'a manager_scheme" where
  "lru_update k s =
     (case map_of (cache_data s) k of
        None \<Rightarrow> s
      | Some v \<Rightarrow> s\<lparr>cache_data := filter (\<lambda>(k', _). k' \<noteq> k) (cache_data s) @ [(k, v)]\<rparr>)"

text \<open>
  The loop shared by \<^verbatim>\<open>__getitem__\<close> and \<^verbatim>\<open>__setitem__\<close>:
  \<^verbatim>\<open>while cur_path != "": cur_path = os.path.split(cur_path)[0]; if cur_path + "/" in self: update\<close>.
  It need not terminate, so a run that does not return is the value \<open>None\<close>.
\<close>

partial_function (option) up_parents :: "string \<Rightarrow> 'a manager_scheme \<Rightarrow> 'a manager_scheme option" where
  "up_parents cur_path s =
     (if cur_path \<noteq> [] then
        (let cur = split_head cur_path
         in up_parents cur (if contains (cur @ ''/'') s then lru_update (cur @ ''/'') s else s))
      else Some s)"

declare up_parents.simps [code]

text \<open>\<^verbatim>\<open>CustomLRUCache.__getitem__\<close>: the library's lookup and update, then the parents.\<close>

definition getitem :: "string \<Rightarrow> 'a manager_scheme \<Rightarrow> (entry, 'a manager_scheme) result option" where
  "getitem path s =
     (case map_of (cache_data s) path of
        None \<Rightarrow> Some (Inl KeyError, s)
      | Some val \<Rightarrow>
          (case up_parents (strip_slash path) (lru_update path s) of
             None \<Rightarrow> None
           | Some s' \<Rightarrow> Some (Inr val, s')))"

text \<open>
  \<^verbatim>\<open>LRUCache.__delitem__\<close> with \<^verbatim>\<open>Cache.__delitem__\<close>: pops the recorded size (KeyError
  for a key that is not there), removes the value and the key's place in the order.
\<close>

definition lru_delitem :: "string \<Rightarrow> 'a manager_scheme \<Rightarrow> (unit, 'a manager_scheme) result" where
  "lru_delitem key s =
     (case map_of (cache_data s) key of
        None \<Rightarrow> (Inl KeyError, s)
      | Some v \<Rightarrow>
          (Inr (), s\<lparr>cache_data := filter (\<lambda>(k', _). k' \<noteq> key) (cache_data s),
                     currsize := currsize s - computeFileSize v\<rparr>))"

text \<open>
  The disk step of \<^verbatim>\<open>__delitem__\<close>:
  \<^verbatim>\<open>if not path.endswith("/") or len(os.listdir(disk_path)) == 0: os.unlink(disk_path)\<close>.
\<close>

definition unlink_step :: "string \<Rightarrow> string \<Rightarrow> 'a manager_scheme \<Rightarrow> (unit, 'a manager_scheme) result" where
  "unlink_step path disk_path s =
     (let do_unlink = (case os_unlink disk_path (disk s) of
                         Inl e \<Rightarrow> (Inl e, s)
                       | Inr d \<Rightarrow> (Inr (), s\<lparr>disk := d\<rparr>))
      in if \<not> endswith_slash path then do_unlink
         else (case os_listdir disk_path (disk s) of
                 Inl e \<Rightarrow> (Inl e, s)
               | Inr names \<Rightarrow> if length names = 0 then do_unlink else (Inr (), s)))"

text \<open>
  \<^verbatim>\<open>CustomLRUCache.__delitem__\<close>. The lookup of the first line is the class's own
  \<^verbatim>\<open>__getitem__\<close>. The variable \<open>path\<close> is reassigned before the parent is computed,
  and the reassigned value is what the call of the superclass receives.
\<close>

partial_function (option) delitem :: "string \<Rightarrow> 'a manager_scheme \<Rightarrow> (unit, 'a manager_scheme) result option" where
  "delitem path s =
     (case getitem path s of
        None \<Rightarrow> None
      | Some (Inl e, s1) \<Rightarrow> Some (Inl e, s1)
      | Some (Inr (timestamp, disk_path, weight), s1) \<Rightarrow>
          (case unlink_step path disk_path s1 of
             (Inl e, s2) \<Rightarrow> Some (Inl e, s2)
           | (Inr _, s2) \<Rightarrow>
               (let path' = strip_slash path;
                    sub = split_head path'
                in Option.bind
                     (if sub \<noteq> [] \<and> contains (sub @ ''/'') s2
                      then delitem (sub @ ''/'') s2 else Some (Inr (), s2))
                     (\<lambda>(r, s3). case r of
                                   Inl e \<Rightarrow> Some (Inl e, s3)
                                 | Inr _ \<Rightarrow> Some (lru_delitem path' s3)))))"

declare delitem.simps [code]

text \<open>
  \<^verbatim>\<open>LRUCache.popitem\<close>: the least recently used key, removed through \<^verbatim>\<open>pop\<close>, which
  is \<^verbatim>\<open>value = self[key]; del self[key]\<close> on the class's own methods.
\<close>

definition popitem :: "'a manager_scheme \<Rightarrow> (string \<times> entry, 'a manager_scheme) result option" where
  "popitem s =
     (case cache_data s of
        [] \<Rightarrow> Some (Inl KeyError, s)
      | (key, _) # _ \<Rightarrow>
          (case getitem key s of
             None \<Rightarrow> None
           | Some (Inl e, s1) \<Rightarrow> Some (Inl e, s1)
           | Some (Inr val, s1) \<Rightarrow>
               (case delitem key s1 of
                  None \<Rightarrow> None
                | Some (Inl e, s2) \<Rightarrow> Some (Inl e, s2)
                | Some (Inr _, s2) \<Rightarrow> Some (Inr (key, val), s2))))"

text \<open>The loop of \<^verbatim>\<open>Cache.__setitem__\<close>: \<^verbatim>\<open>while self.__currsize + size > maxsize: self.popitem()\<close>.\<close>

partial_function (option) evict :: "int \<Rightarrow> 'a manager_scheme \<Rightarrow> (unit, 'a manager_scheme) result option" where
  "evict sz s =
     (if currsize s + sz > maxsize s then
        (case popitem s of
           None \<Rightarrow> None
         | Some (Inl e, s1) \<Rightarrow> Some (Inl e, s1)
         | Some (Inr _, s1) \<Rightarrow> evict sz s1)
      else Some (Inr (), s))"

declare evict.simps [code]

text \<open>\<^verbatim>\<open>Cache.__setitem__\<close>.\<close>

definition cache_setitem :: "string \<Rightarrow> entry \<Rightarrow> 'a manager_scheme \<Rightarrow> (unit, 'a manager_scheme) result option" where
  "cache_setitem key val s =
     (let sz = computeFileSize val
      in if sz > maxsize s then Some (Inl ValueError, s)
         else
           (case (if (case map_of (cache_data s) key of
                        None \<Rightarrow> True
                      | Some old \<Rightarrow> computeFileSize old < sz)
                  then evict sz s else Some (Inr (), s)) of
              None \<Rightarrow> None
            | Some (Inl e, s1) \<Rightarrow> Some (Inl e, s1)
            | Some (Inr _, s1) \<Rightarrow>
                (case map_of (cache_data s1) key of
                   Some old \<Rightarrow>
                     Some (Inr (), s1\<lparr>cache_data := map (\<lambda>(k', v'). if k' = key then (k', val) else (k', v'))
                                                       (cache_data s1),
                                      currsize := currsize s1 + (sz - computeFileSize old)\<rparr>)
                 | None \<Rightarrow>
                     Some (Inr (), s1\<lparr>cache_data := cache_data s1 @ [(key, val)],
                                      currsize := currsize s1 + sz\<rparr>))))"

text \<open>
  \<^verbatim>\<open>CustomLRUCache.__setitem__\<close>: the library's \<^verbatim>\<open>LRUCache.__setitem__\<close> (store, then
  update the key), then the parents.
\<close>

definition setitem :: "string \<Rightarrow> entry \<Rightarrow> 'a manager_scheme \<Rightarrow> (unit, 'a manager_scheme) result option" where
  "setitem path val s =
     (case cache_setitem path val s of
        None \<Rightarrow> None
      | Some (Inl e, s1) \<Rightarrow> Some (Inl e, s1)
      | Some (Inr _, s1) \<Rightarrow>
          (case up_parents (strip_slash path) (lru_update path s1) of
             None \<Rightarrow> None
           | Some s2 \<Rightarrow> Some (Inr (), s2)))"

section \<open>S3CacheManager\<close>

text \<open>
  The constructor wipes and recreates the cache directory and starts with an empty
  cache of the given maximum size.
\<close>

definition init_manager :: "string \<Rightarrow> int \<Rightarrow> disk \<Rightarrow> exn + manager" where
  "init_manager cpath max_size d =
     (let k = dkey cpath;
          wiped = filter (\<lambda>(k', _). \<not> (fst k' = fst k \<and> take (length (snd k)) (snd k') = snd k)) d
      in case os_makedirs cpath wiped of
           Inl e \<Rightarrow> Inl e
         | Inr d' \<Rightarrow> Inr \<lparr>cache_path = cpath, maxsize = max_size, currsize = 0,
                          cache_data = [], disk = d'\<rparr>)"

text \<open>\<^verbatim>\<open>S3CacheManager.get\<close>: \<open>None\<close> of Python is \<open>None\<close> of the inner option.\<close>

definition get :: "string \<Rightarrow> int \<Rightarrow> 'a manager_scheme \<Rightarrow> (string option, 'a manager_scheme) result option" where
  "get path cur_timestamp s =
     (if contains path s then
        (case getitem path s of
           None \<Rightarrow> None
         | Some (Inl e, s1) \<Rightarrow> Some (Inl e, s1)
         | Some (Inr entry, s1) \<Rightarrow>
             if fst entry \<ge> cur_timestamp then Some (Inr (Some (fst (snd entry))), s1)
             else Some (Inr None, s1))
      else Some (Inr None, s))"

definition put_file :: "string \<Rightarrow> int \<Rightarrow> string \<Rightarrow> 'a manager_scheme \<Rightarrow> (unit, 'a manager_scheme) result option" where
  "put_file path cur_timestamp content s =
     (let disk_path = path_join (cache_path s) path
      in case os_makedirs (split_head disk_path) (disk s) of
           Inl e \<Rightarrow> Some (Inl e, s)
         | Inr d1 \<Rightarrow>
             (case os_write disk_path content d1 of
                Inl e \<Rightarrow> Some (Inl e, s\<lparr>disk := d1\<rparr>)
              | Inr d2 \<Rightarrow> setitem path (cur_timestamp, disk_path, int (length content)) (s\<lparr>disk := d2\<rparr>)))"

definition put_folder :: "string \<Rightarrow> int \<Rightarrow> 'a manager_scheme \<Rightarrow> (unit, 'a manager_scheme) result option" where
  "put_folder path cur_timestamp s =
     (let disk_path = path_join (cache_path s) path
      in case os_makedirs (split_head disk_path) (disk s) of
           Inl e \<Rightarrow> Some (Inl e, s)
         | Inr d1 \<Rightarrow> setitem path (cur_timestamp, disk_path, 0) (s\<lparr>disk := d1\<rparr>))"

partial_function (option) invalidate :: "string \<Rightarrow> 'a manager_scheme \<Rightarrow> (unit, 'a manager_scheme) result option" where
  "invalidate path s =
     (if contains path s then delitem path s
      else
        (let path' = strip_slash path;
             sub = split_head path'
         in if sub \<noteq> [] then invalidate (sub @ ''/'') s else Some (Inr (), s)))"

declare invalidate.simps [code]

section \<open>The remote store\<close>

text \<open>
  The world of the provider extends the state of the cache manager by the bucket, the
  clock and a log of the requests sent to the store. The bucket maps a key to the time of
  its last modification and its content and is kept in the order of the keys, which is
  the order in which the store lists them.

  The store answers (\<open>Up\<close>), or it answers every request with an error response
  (\<open>Rejecting\<close>: no such bucket, access denied), which the client raises as ClientError,
  or it cannot be reached (\<open>Unreachable\<close>), on which the client raises
  EndpointConnectionError. A store that answers has an error response for the request for
  the metadata or the content of a key that is not there. The client checks the
  parameters of a request before it sends it: a key has at least one character, and for
  the empty key the client raises ParamValidationError and sends nothing.

  The clock holds the time of the last reading and the amounts by which the coming
  readings advance: \<^verbatim>\<open>datetime.now()\<close> is a reading. \<open>cwd\<close> is the working directory
  of the process, as components, which \<^verbatim>\<open>os.path.relpath\<close> consults.
\<close>

datatype request = ReqHead string | ReqGet string | ReqPut string | ReqDelete string
  | ReqList string | ReqListDelimited string

datatype store_status = Up | Rejecting | Unreachable

record world = manager +
  store :: store_status
  bucket :: "(string \<times> int \<times> string) list"
  clock :: int
  ticks :: "int list"
  requests :: "request list"
  cwd :: "string list"

definition now :: "world \<Rightarrow> int \<times> world" where
  "now w =
     (case ticks w of
        [] \<Rightarrow> (clock w, w)
      | d # ds \<Rightarrow> (clock w + d, w\<lparr>clock := clock w + d, ticks := ds\<rparr>))"

definition sent :: "request \<Rightarrow> world \<Rightarrow> world" where
  "sent r w = w\<lparr>requests := requests w @ [r]\<rparr>"

text \<open>The exception with which every request fails, if the store is not up.\<close>

definition store_failure :: "world \<Rightarrow> exn option" where
  "store_failure w =
     (case store w of
        Up \<Rightarrow> None
      | Rejecting \<Rightarrow> Some ClientError
      | Unreachable \<Rightarrow> Some EndpointConnectionError)"

text \<open>
  \<^verbatim>\<open>Object(key).last_modified\<close>, when the attributes of the object are not loaded: a
  HEAD request.
\<close>

definition remote_head :: "string \<Rightarrow> world \<Rightarrow> (int, world) result" where
  "remote_head key w =
     (if key = [] then (Inl ParamValidationError, w)
      else let w' = sent (ReqHead key) w
           in case store_failure w of
                Some e \<Rightarrow> (Inl e, w')
              | None \<Rightarrow>
                  (case map_of (bucket w) key of
                     None \<Rightarrow> (Inl ClientError, w')
                   | Some (lm, content) \<Rightarrow> (Inr lm, w')))"

text \<open>\<^verbatim>\<open>Object(key).get()["Body"]\<close>, read to its end.\<close>

definition remote_get :: "string \<Rightarrow> world \<Rightarrow> (string, world) result" where
  "remote_get key w =
     (if key = [] then (Inl ParamValidationError, w)
      else let w' = sent (ReqGet key) w
           in case store_failure w of
                Some e \<Rightarrow> (Inl e, w')
              | None \<Rightarrow>
                  (case map_of (bucket w) key of
                     None \<Rightarrow> (Inl ClientError, w')
                   | Some (lm, content) \<Rightarrow> (Inr content, w')))"

text \<open>\<^verbatim>\<open>Object(key).delete()\<close>: the store answers alike whether the key was there or not.\<close>

definition remote_delete :: "string \<Rightarrow> world \<Rightarrow> (unit, world) result" where
  "remote_delete key w =
     (if key = [] then (Inl ParamValidationError, w)
      else let w' = sent (ReqDelete key) w
           in case store_failure w of
                Some e \<Rightarrow> (Inl e, w')
              | None \<Rightarrow> (Inr (), w'\<lparr>bucket := filter (\<lambda>(k, _). k \<noteq> key) (bucket w')\<rparr>))"

text \<open>
  \<^verbatim>\<open>upload_fileobj\<close> and \<^verbatim>\<open>put_object\<close>: the store stamps the object with the time of
  the request.
\<close>

definition remote_put :: "string \<Rightarrow> string \<Rightarrow> world \<Rightarrow> (unit, world) result" where
  "remote_put key content w =
     (if key = [] then (Inl ParamValidationError, w)
      else let w' = sent (ReqPut key) w
           in case store_failure w of
                Some e \<Rightarrow> (Inl e, w')
              | None \<Rightarrow>
                  (case now w' of
                     (t, w'') \<Rightarrow>
                       (Inr (), w''\<lparr>bucket := insort_key fst (key, t, content)
                                                   (filter (\<lambda>(k, _). k \<noteq> key) (bucket w''))\<rparr>)))"

text \<open>
  \<^verbatim>\<open>bucket.objects.filter(Prefix=p, Marker=p).all()\<close>, consumed: the keys that start
  with the prefix and come after the marker, which leaves out the key equal to the
  prefix, each with its modification time. A prefix may be empty.
\<close>

definition remote_list :: "string \<Rightarrow> world \<Rightarrow> ((string \<times> int) list, world) result" where
  "remote_list p w =
     (let w' = sent (ReqList p) w
      in case store_failure w of
           Some e \<Rightarrow> (Inl e, w')
         | None \<Rightarrow>
             (Inr (map (\<lambda>(k, lm, _). (k, lm))
                     (filter (\<lambda>(k, _). take (length p) k = p \<and> k \<noteq> p) (bucket w))), w'))"

text \<open>
  \<^verbatim>\<open>list_objects_v2(Prefix=p, Delimiter="/").get("CommonPrefixes", [])\<close>: for the keys
  that continue the prefix past a further slash, the key up to and including that slash,
  each once.
\<close>

definition remote_common_prefixes :: "string \<Rightarrow> world \<Rightarrow> (string list, world) result" where
  "remote_common_prefixes p w =
     (let w' = sent (ReqListDelimited p) w
      in case store_failure w of
           Some e \<Rightarrow> (Inl e, w')
         | None \<Rightarrow>
             (Inr (remdups
                     (map (\<lambda>(k, _). p @ takeWhile (\<lambda>c. c \<noteq> CHR ''/'') (drop (length p) k) @ ''/'')
                        (filter (\<lambda>(k, _). take (length p) k = p
                                           \<and> CHR ''/'' \<in> set (drop (length p) k)) (bucket w)))), w'))"

section \<open>Sequencing calls that may raise\<close>

text \<open>
  \<open>then_do m f\<close> runs \<open>f\<close> on the value and the state of \<open>m\<close> when \<open>m\<close> returned; an
  exception of \<open>m\<close> is the outcome, and so is its not returning.
  \<open>except_ClientError\<close> is the handler \<^verbatim>\<open>except ClientError: raise NotFoundException()\<close>:
  it turns ClientError into NotFoundException and lets every other exception pass.
\<close>

definition then_do ::
  "('a, 's) result option \<Rightarrow> ('a \<Rightarrow> 's \<Rightarrow> ('b, 's) result option) \<Rightarrow> ('b, 's) result option" where
  "then_do m f =
     (case m of
        None \<Rightarrow> None
      | Some (Inl e, s) \<Rightarrow> Some (Inl e, s)
      | Some (Inr x, s) \<Rightarrow> f x s)"

definition except_ClientError :: "('a, 's) result option \<Rightarrow> ('a, 's) result option" where
  "except_ClientError m =
     (case m of
        None \<Rightarrow> None
      | Some (Inl e, s) \<Rightarrow> Some (Inl (if e = ClientError then NotFoundException else e), s)
      | Some (Inr x, s) \<Rightarrow> Some (Inr x, s))"

text \<open>An operation of the disk, run on the disk of the world.\<close>

definition on_disk :: "(disk \<Rightarrow> exn + disk) \<Rightarrow> world \<Rightarrow> (unit, world) result option" where
  "on_disk f w = (case f (disk w) of Inl e \<Rightarrow> Some (Inl e, w) | Inr d \<Rightarrow> Some (Inr (), w\<lparr>disk := d\<rparr>))"

section \<open>S3FSProvider\<close>

text \<open>
  A provider is its prefix together with the check of paths of the base class
  \<^verbatim>\<open>FileSystemProvider\<close>, which is not part of this repository:
  \<^verbatim>\<open>_checkpath\<close> raises NotFoundException for the paths it rejects, and \<open>valid_path\<close> is
  the set of paths it accepts. The constructor appends a slash to a prefix without one
  and empties the prefix \<^verbatim>\<open>/\<close>.
\<close>

record provider =
  prefix :: string
  valid_path :: "string \<Rightarrow> bool"

definition S3FSProvider :: "string \<Rightarrow> (string \<Rightarrow> bool) \<Rightarrow> provider" where
  "S3FSProvider p valid =
     (let p1 = (if \<not> endswith_slash p then p @ ''/'' else p);
          p2 = (if p1 = ''/'' then [] else p1)
      in \<lparr>prefix = p2, valid_path = valid\<rparr>)"

definition checkpath :: "provider \<Rightarrow> string \<Rightarrow> world \<Rightarrow> (unit, world) result option" where
  "checkpath pv path w =
     (if valid_path pv path then Some (Inr (), w) else Some (Inl NotFoundException, w))"

definition from_subfolder :: "provider \<Rightarrow> string \<Rightarrow> world \<Rightarrow> (provider, world) result option" where
  "from_subfolder pv subfolder w =
     then_do (checkpath pv subfolder w)
       (\<lambda>_ w. Some (Inr (S3FSProvider (prefix pv @ subfolder) (valid_path pv)), w))"

text \<open>
  \<^verbatim>\<open>_put_file\<close>: the upload, then a write to the key of every directory on the way,
  the deepest first. \<open>folder_keys\<close> is the list \<open>parts\<close> after the first loop.
\<close>

fun folder_keys :: "string \<Rightarrow> string list \<Rightarrow> string list" where
  "folder_keys acc [] = []"
| "folder_keys acc (p # ps) = (acc @ p @ ''/'') # folder_keys (acc @ p @ ''/'') ps"

fun put_objects :: "string list \<Rightarrow> world \<Rightarrow> (unit, world) result option" where
  "put_objects [] w = Some (Inr (), w)"
| "put_objects (k # ks) w = then_do (Some (remote_put k [] w)) (\<lambda>_. put_objects ks)"

definition put_file_remote :: "string \<Rightarrow> string \<Rightarrow> world \<Rightarrow> (unit, world) result option" where
  "put_file_remote fullpath content w =
     except_ClientError
       (then_do (Some (remote_put fullpath content w))
          (\<lambda>_. put_objects (rev (folder_keys [] (butlast (split_slash fullpath))))))"

definition put :: "provider \<Rightarrow> string \<Rightarrow> string \<Rightarrow> world \<Rightarrow> (unit, world) result option" where
  "put pv filepath content w =
     then_do (checkpath pv filepath w)
       (\<lambda>_ w. let fullpath = prefix pv @ filepath
               in if endswith_slash fullpath then Some (Inl NotFoundException, w)
                  else put_file_remote fullpath content w)"

text \<open>
  \<^verbatim>\<open>open(path, 'rb')\<close> followed by the read of the file; the path may be \<^verbatim>\<open>None\<close>, on
  which \<^verbatim>\<open>open\<close> raises TypeError.
\<close>

definition open_read :: "string option \<Rightarrow> world \<Rightarrow> (string, world) result option" where
  "open_read path w =
     (case path of
        None \<Rightarrow> Some (Inl TypeError, w)
      | Some p \<Rightarrow> (case os_read p (disk w) of Inl e \<Rightarrow> Some (Inl e, w) | Inr c \<Rightarrow> Some (Inr c, w)))"

text \<open>
  \<^verbatim>\<open>get_fd\<close>, with the file it opens represented by the content that reading it yields,
  so that \<^verbatim>\<open>get\<close> is the same function. The attribute \<^verbatim>\<open>obj.last_modified\<close> sends a
  HEAD request when the attributes of the object are not loaded, and an action on the
  object, as \<^verbatim>\<open>obj.get()\<close> is, drops the loaded attributes: the access in the arguments of
  \<^verbatim>\<open>put_file\<close>, after the download, sends a request whether or not the needed time was
  read from the object before.
\<close>

definition get_fd :: "provider \<Rightarrow> string \<Rightarrow> int option \<Rightarrow> world \<Rightarrow> (string, world) result option" where
  "get_fd pv filepath timestamp w =
     then_do (checkpath pv filepath w)
       (\<lambda>_ w. let fullpath = prefix pv @ filepath
               in if endswith_slash fullpath then Some (Inl NotFoundException, w)
                  else except_ClientError
                    (then_do (case timestamp of
                                Some t \<Rightarrow> Some (Inr t, w)
                              | None \<Rightarrow> Some (remote_head fullpath w))
                       (\<lambda>needed_time w.
                          then_do (get fullpath needed_time w)
                            (\<lambda>local_path w.
                               if local_path = None then
                                 then_do (Some (remote_get fullpath w))
                                   (\<lambda>content w.
                                      then_do (Some (remote_head fullpath w))
                                        (\<lambda>last_modified w.
                                           then_do (put_file fullpath last_modified content w)
                                             (\<lambda>_ w. then_do (get fullpath needed_time w) open_read)))
                               else open_read local_path w))))"

definition get_content :: "provider \<Rightarrow> string \<Rightarrow> int option \<Rightarrow> world \<Rightarrow> (string, world) result option" where
  "get_content pv filepath timestamp w = get_fd pv filepath timestamp w"

definition get_last_modification_time :: "provider \<Rightarrow> string \<Rightarrow> world \<Rightarrow> (int, world) result option" where
  "get_last_modification_time pv filepath w =
     then_do (checkpath pv filepath w)
       (\<lambda>_ w. let fullpath = prefix pv @ filepath
               in if endswith_slash fullpath then Some (Inl NotFoundException, w)
                  else except_ClientError (Some (remote_head fullpath w)))"

text \<open>
  \<^verbatim>\<open>os.path.relpath(path, start)\<close> of posixpath: both paths are made absolute and
  normal, the components \<^verbatim>\<open>.\<close> and the empty ones dropped and \<^verbatim>\<open>..\<close> resolved; the
  result climbs from \<open>start\<close> to the common part and descends to \<open>path\<close>.
\<close>

definition norm_step :: "string \<Rightarrow> string list \<Rightarrow> string list" where
  "norm_step c st = (if c = [] \<or> c = ''.'' then st else if c = ''..'' then butlast st else st @ [c])"

definition abs_comps :: "string list \<Rightarrow> string \<Rightarrow> string list" where
  "abs_comps wd p = fold norm_step (split_slash p) (if startswith_slash p then [] else wd)"

fun common_length :: "string list \<Rightarrow> string list \<Rightarrow> nat" where
  "common_length (x # xs) (y # ys) = (if x = y then Suc (common_length xs ys) else 0)"
| "common_length _ _ = 0"

fun join_all :: "string list \<Rightarrow> string" where
  "join_all [] = []"
| "join_all [c] = c"
| "join_all (c # cs) = c @ ''/'' @ join_all cs"

definition relpath :: "string list \<Rightarrow> string \<Rightarrow> string \<Rightarrow> exn + string" where
  "relpath wd path start =
     (if path = [] then Inl ValueError
      else let start_list = abs_comps wd start;
               path_list = abs_comps wd path;
               i = common_length start_list path_list;
               rel_list = replicate (length start_list - i) ''..'' @ drop i path_list
           in if rel_list = [] then Inr ''.'' else Inr (join_all rel_list))"

definition compute_relpath :: "string list \<Rightarrow> string \<Rightarrow> string \<Rightarrow> exn + string" where
  "compute_relpath wd path base =
     (case relpath wd path base of
        Inl e \<Rightarrow> Inl e
      | Inr out \<Rightarrow>
          if endswith_slash path \<and> \<not> endswith_slash out \<and> out \<noteq> [] then Inr (out @ ''/'')
          else Inr out)"

fun relpaths :: "string list \<Rightarrow> string \<Rightarrow> string list \<Rightarrow> exn + string list" where
  "relpaths wd base [] = Inr []"
| "relpaths wd base (k # ks) =
     (case compute_relpath wd k base of
        Inl e \<Rightarrow> Inl e
      | Inr r \<Rightarrow> (case relpaths wd base ks of Inl e \<Rightarrow> Inl e | Inr rs \<Rightarrow> Inr (r # rs)))"

text \<open>\<^verbatim>\<open>list(folders, files, recursive)\<close>; no handler surrounds its requests.\<close>

definition list_objects :: "provider \<Rightarrow> bool \<Rightarrow> bool \<Rightarrow> bool \<Rightarrow> world \<Rightarrow> (string list, world) result option" where
  "list_objects pv folders files recursive w =
     then_do (if recursive
              then then_do (Some (remote_list (prefix pv) w)) (\<lambda>objs w. Some (Inr (map fst objs), w))
              else Some (remote_common_prefixes (prefix pv) w))
       (\<lambda>ks w. case relpaths (cwd w) (prefix pv) ks of
                  Inl e \<Rightarrow> Some (Inl e, w)
                | Inr objects \<Rightarrow>
                    Some (Inr (concat (map (\<lambda>f. (if endswith_slash f \<and> folders then [f] else [])
                                                @ (if \<not> endswith_slash f \<and> files then [f] else []))
                                         objects)), w))"

text \<open>
  The end of \<^verbatim>\<open>delete\<close>: the cache is invalidated, then the object is deleted from the
  store, both under the handler for ClientError.
\<close>

definition delete_object :: "string \<Rightarrow> world \<Rightarrow> (unit, world) result option" where
  "delete_object fullpath w =
     except_ClientError
       (then_do (invalidate fullpath w) (\<lambda>_ w. Some (remote_delete fullpath w)))"

text \<open>
  \<^verbatim>\<open>delete\<close> of a path that is not a folder. This is also what the recursive call
  \<^verbatim>\<open>subfolder.delete(f)\<close> of a folder's deletion runs: \<^verbatim>\<open>list(False, True, True)\<close>
  yields only names that do not end in a slash, and the prefix of the subfolder is put
  before them.
\<close>

definition delete_file :: "provider \<Rightarrow> string \<Rightarrow> world \<Rightarrow> (unit, world) result option" where
  "delete_file pv filepath w =
     then_do (checkpath pv filepath w) (\<lambda>_ w. delete_object (prefix pv @ filepath) w)"

fun delete_files :: "provider \<Rightarrow> string list \<Rightarrow> world \<Rightarrow> (unit, world) result option" where
  "delete_files sub [] w = Some (Inr (), w)"
| "delete_files sub (f # fs) w = then_do (delete_file sub f w) (\<lambda>_. delete_files sub fs)"

text \<open>
  \<^verbatim>\<open>delete\<close>: for a folder the files under it are listed and deleted, each by a call
  of its own (\<open>delete_contents\<close>); after that the key itself is deleted.
\<close>

definition delete_contents :: "provider \<Rightarrow> string \<Rightarrow> world \<Rightarrow> (unit, world) result option" where
  "delete_contents pv filepath w =
     (if endswith_slash (prefix pv @ filepath)
      then then_do (from_subfolder pv filepath w)
             (\<lambda>subfolder w.
                then_do (list_objects subfolder False True True w) (delete_files subfolder))
      else Some (Inr (), w))"

definition delete :: "provider \<Rightarrow> string option \<Rightarrow> world \<Rightarrow> (unit, world) result option" where
  "delete pv filepath_opt w =
     (let filepath = (case filepath_opt of None \<Rightarrow> [] | Some p \<Rightarrow> p)
      in then_do (checkpath pv filepath w)
           (\<lambda>_ w. then_do (delete_contents pv filepath w)
                    (\<lambda>_. delete_object (prefix pv @ filepath))))"

text \<open>
  \<^verbatim>\<open>_recursive_overwrite(src, dest)\<close>, as a walk over the pairs still to copy, in the
  order of the recursion; \<^verbatim>\<open>shutil.copyfile\<close> is a read and a write.
\<close>

partial_function (option) recursive_overwrite :: "(string \<times> string) list \<Rightarrow> disk \<Rightarrow> (exn + disk) option" where
  "recursive_overwrite todo d =
     (case todo of
        [] \<Rightarrow> Some (Inr d)
      | (src, dest) # rest \<Rightarrow>
          if src \<noteq> [] \<and> isdir d (dkey src) then
            (case (if dest \<noteq> [] \<and> isdir d (dkey dest) then Inr d else os_makedirs dest d) of
               Inl e \<Rightarrow> Some (Inl e)
             | Inr d1 \<Rightarrow>
                 (case os_listdir src d1 of
                    Inl e \<Rightarrow> Some (Inl e)
                  | Inr files \<Rightarrow>
                      recursive_overwrite
                        (map (\<lambda>f. (path_join src f, path_join dest f)) files @ rest) d1))
          else
            (case os_read src d of
               Inl e \<Rightarrow> Some (Inl e)
             | Inr content \<Rightarrow>
                 (case os_write dest content d of
                    Inl e \<Rightarrow> Some (Inl e)
                  | Inr d1 \<Rightarrow> recursive_overwrite rest d1)))"

declare recursive_overwrite.simps [code]

text \<open>
  The loop \<^verbatim>\<open>while f != "": f = os.path.split(f)[0]; all_folders.add(f)\<close>. The set
  \<open>all_folders\<close> is a list without repetitions, in the order in which the names were
  added; Python fixes no order for the loop over a set.
\<close>

partial_function (option) add_folders :: "string \<Rightarrow> string list \<Rightarrow> string list option" where
  "add_folders f all_folders =
     (if f \<noteq> [] then
        (let f' = split_head f
         in add_folders f' (if f' \<in> set all_folders then all_folders else all_folders @ [f']))
      else Some all_folders)"

declare add_folders.simps [code]

text \<open>
  \<^verbatim>\<open>open(path, 'wb').write(self.get(...))\<close>: the file is opened, which creates or
  empties it, before the argument is evaluated, and written after it.
\<close>

definition write_from ::
  "string \<Rightarrow> (world \<Rightarrow> (string, world) result option) \<Rightarrow> world \<Rightarrow> (unit, world) result option" where
  "write_from path read w =
     then_do (on_disk (os_write path []) w)
       (\<lambda>_ w. then_do (read w) (\<lambda>content. on_disk (os_write path content)))"

text \<open>The first loop of the reconciliation, over the listed files.\<close>

fun copy_files ::
  "provider \<Rightarrow> string \<Rightarrow> string \<Rightarrow> (string \<times> int) list \<Rightarrow> string list \<Rightarrow> world
   \<Rightarrow> (string list, world) result option" where
  "copy_files pv src dest_disk [] all_folders w = Some (Inr all_folders, w)"
| "copy_files pv src dest_disk ((f, tmsp) # objects) all_folders w =
     (let dest_file_path = path_join dest_disk f
      in then_do (on_disk (os_makedirs (split_head dest_file_path)) w)
           (\<lambda>_ w. then_do (write_from dest_file_path (get_content pv (src @ f) (Some tmsp)) w)
              (\<lambda>_ w. case add_folders f all_folders of
                        None \<Rightarrow> None
                      | Some folders \<Rightarrow> copy_files pv src dest_disk objects folders w)))"

text \<open>The second loop, which registers the markers.\<close>

fun put_folders :: "string \<Rightarrow> int \<Rightarrow> string list \<Rightarrow> world \<Rightarrow> (unit, world) result option" where
  "put_folders fullpath start_timestamp [] w = Some (Inr (), w)"
| "put_folders fullpath start_timestamp (f # fs) w =
     then_do (put_folder (fullpath @ (if f \<noteq> [] then f @ ''/'' else f)) start_timestamp w)
       (\<lambda>_. put_folders fullpath start_timestamp fs)"

text \<open>The listing of the reconciliation: the keys that are not folders, made relative.\<close>

fun relative_files :: "string list \<Rightarrow> string \<Rightarrow> (string \<times> int) list \<Rightarrow> exn + (string \<times> int) list" where
  "relative_files wd base [] = Inr []"
| "relative_files wd base ((k, lm) # objs) =
     (if endswith_slash k then relative_files wd base objs
      else (case compute_relpath wd k base of
              Inl e \<Rightarrow> Inl e
            | Inr r \<Rightarrow> (case relative_files wd base objs of
                          Inl e \<Rightarrow> Inl e
                        | Inr rs \<Rightarrow> Inr ((r, lm) # rs))))"

text \<open>
  \<^verbatim>\<open>copy_from(src, dest_disk)\<close>. The request for the modification time of the folder
  is sent and its answer, or its exception, is dropped: \<open>last_modified\<close> stays the
  reading of the clock.
\<close>

definition reconcile ::
  "provider \<Rightarrow> string \<Rightarrow> string \<Rightarrow> string \<Rightarrow> int \<Rightarrow> world \<Rightarrow> (unit, world) result option" where
  "reconcile pv src dest_disk fullpath start_timestamp w =
     then_do (Some (remote_list fullpath w))
       (\<lambda>listed w.
          case relative_files (cwd w) fullpath listed of
            Inl e \<Rightarrow> Some (Inl e, w)
          | Inr objects \<Rightarrow>
              then_do (copy_files pv src dest_disk objects [[]] w)
                (put_folders fullpath start_timestamp))"

definition copy_cached_folder :: "string \<Rightarrow> string \<Rightarrow> world \<Rightarrow> (unit, world) result option" where
  "copy_cached_folder folder dest_disk w =
     (case recursive_overwrite [(folder, dest_disk)] (disk w) of
        None \<Rightarrow> None
      | Some (Inl e) \<Rightarrow> Some (Inl e, w)
      | Some (Inr d) \<Rightarrow> Some (Inr (), w\<lparr>disk := d\<rparr>))"

definition copy_folder ::
  "provider \<Rightarrow> string \<Rightarrow> string \<Rightarrow> string \<Rightarrow> world \<Rightarrow> (unit, world) result option" where
  "copy_folder pv src dest_disk fullpath w =
     (case now w of
        (last_modified, w1) \<Rightarrow>
          (case remote_head fullpath w1 of
             (ignored, w2) \<Rightarrow>
               then_do (get fullpath last_modified w2)
                 (\<lambda>folder w3.
                    case now w3 of
                      (start_timestamp, w4) \<Rightarrow>
                        (case folder of
                           Some folder_path \<Rightarrow> copy_cached_folder folder_path dest_disk w4
                         | None \<Rightarrow> reconcile pv src dest_disk fullpath start_timestamp w4))))"

definition copy_from :: "provider \<Rightarrow> string option \<Rightarrow> string \<Rightarrow> world \<Rightarrow> (unit, world) result option" where
  "copy_from pv src_opt dest_disk w =
     (let src = (case src_opt of None \<Rightarrow> [] | Some p \<Rightarrow> p)
      in then_do (checkpath pv src w)
           (\<lambda>u w. let fullpath = prefix pv @ src
                   in if fullpath \<noteq> [] \<and> \<not> endswith_slash fullpath then
                        write_from dest_disk (get_content pv src None) w
                      else copy_folder pv src dest_disk fullpath w))"

section \<open>Recency: the loop over the parents, unrolled\<close>

text \<open>
  The values that \<open>cur_path\<close> takes in the loop over the parents, for at most \<open>n\<close>
  rounds: \<open>walk n p\<close> is the heads of \<open>p\<close>, from the immediate parent upwards, the
  final empty head included. For a path that does not start with a slash every head is
  shorter than the path before it, so that \<open>length p\<close> rounds reach the empty path.
  \<open>parent_markers path\<close> is the list of keys the loop looks for, \<open>touch_if\<close> one round
  of it, and \<open>touch_all path\<close> the update of the key followed by all rounds.
\<close>

fun walk :: "nat \<Rightarrow> string \<Rightarrow> string list" where
  "walk 0 p = []"
| "walk (Suc n) p = (if p = [] then [] else split_head p # walk n (split_head p))"

definition touch_if :: "string \<Rightarrow> 'a manager_scheme \<Rightarrow> 'a manager_scheme" where
  "touch_if m s = (if contains m s then lru_update m s else s)"

definition parent_markers :: "string \<Rightarrow> string list" where
  "parent_markers path = map (\<lambda>a. a @ ''/'') (walk (length path) (strip_slash path))"

definition touch_all :: "string \<Rightarrow> 'a manager_scheme \<Rightarrow> 'a manager_scheme" where
  "touch_all path s = fold touch_if (parent_markers path) (lru_update path s)"

text \<open>
  The keys that the update and the loop move to the most recently used end of a cache
  with the keys \<open>ks\<close>, in the order in which they end up: the path, then the keys the
  loop looks for that are cached, in the order of the loop.
\<close>

definition recent_keys :: "string \<Rightarrow> string list \<Rightarrow> string list" where
  "recent_keys path ks = path # filter (\<lambda>m. m \<in> set ks) (parent_markers path)"

section \<open>Ancestors: what the claims speak of\<close>

text \<open>
  The claims speak of the ancestor directory markers of a path. A virtual path is a key
  in a tree that exists by naming only: a key that ends in a slash is a directory, the
  empty key is the root, and a key lies under a directory when the key of the directory
  is a proper prefix of it. \<open>ancestor_markers path\<close> is the list of the directory keys
  under which the path lies, from the immediate parent up to the root; it is defined by
  these words and not by the loop of the code.

  \<open>adjacent_slashes p\<close> holds for a path with two slashes in a row, which names a
  directory whose name is empty. \<open>marked_keys path ks\<close> is the list of keys that the
  amended claims say a touch of \<open>path\<close> moves to the most recently used end of a cache
  with the keys \<open>ks\<close>, in the order in which they end up: the path, then the cached
  ancestor markers other than the root, nearest first, then the key \<^verbatim>\<open>/\<close> if it is
  cached.
\<close>

definition proper_prefixes :: "string \<Rightarrow> string list" where
  "proper_prefixes p = map (\<lambda>n. take n p) (rev [0 ..< length p])"

definition ancestor_markers :: "string \<Rightarrow> string list" where
  "ancestor_markers path = filter (\<lambda>d. d = [] \<or> endswith_slash d) (proper_prefixes path)"

fun adjacent_slashes :: "string \<Rightarrow> bool" where
  "adjacent_slashes (a # b # cs) = ((a = CHR ''/'' \<and> b = CHR ''/'') \<or> adjacent_slashes (b # cs))"
| "adjacent_slashes _ = False"

definition marked_keys :: "string \<Rightarrow> string list \<Rightarrow> string list" where
  "marked_keys path ks =
     path # filter (\<lambda>m. m \<in> set ks) (filter (\<lambda>d. d \<noteq> []) (ancestor_markers path) @ [''/''])"

text \<open>The proper prefixes of a path that end in a slash, the longest first.\<close>

definition slash_prefixes :: "string \<Rightarrow> string list" where
  "slash_prefixes p = filter endswith_slash (proper_prefixes p)"
section \<open>Capacity and markers: what the claims speak of\<close>

text \<open>
  The total weight of a cache is the sum of the weights of its entries; a marker is
  stored with weight zero and a file with the length of its content. \<open>cache_inv\<close> is
  the state of the library's bookkeeping between two calls: no key twice, no negative
  weight, the recorded current size equal to the total weight, and within the maximum.
\<close>

definition total_weight :: "'a manager_scheme \<Rightarrow> int" where
  "total_weight s = sum_list (map (\<lambda>(k, v). computeFileSize v) (cache_data s))"

definition cache_inv :: "'a manager_scheme \<Rightarrow> bool" where
  "cache_inv s =
     (distinct (keys s) \<and> (\<forall>(k, v) \<in> set (cache_data s). 0 \<le> computeFileSize v)
      \<and> currsize s = total_weight s \<and> currsize s \<le> maxsize s)"

text \<open>
  A sequence of insertions through the two storing methods of the cache manager. A call
  that raises leaves its state to the next call; a call that does not return ends the
  run with \<open>None\<close>.
\<close>

datatype insertion = PutFile string int string | PutFolder string int

fun insertion_path :: "insertion \<Rightarrow> string" where
  "insertion_path (PutFile path _ _) = path"
| "insertion_path (PutFolder path _) = path"

fun insert_op :: "insertion \<Rightarrow> 'a manager_scheme \<Rightarrow> (unit, 'a manager_scheme) result option" where
  "insert_op (PutFile path ts content) s = put_file path ts content s"
| "insert_op (PutFolder path ts) s = put_folder path ts s"

fun run_insertions :: "insertion list \<Rightarrow> 'a manager_scheme \<Rightarrow> 'a manager_scheme option" where
  "run_insertions [] s = Some s"
| "run_insertions (i # ops) s = Option.bind (insert_op i s) (\<lambda>(r, s'). run_insertions ops s')"

text \<open>
  A key that ends in two slashes names a directory with an empty name. \<open>kept s s'\<close>
  relates a state to a later one: the maximum is the same, the bookkeeping is still in
  order if it was, no key has appeared, and, in a cache without keys that end in two
  slashes, every key that ends in a slash is still there.
\<close>

definition double_slash :: "string \<Rightarrow> bool" where
  "double_slash k = (endswith_slash k \<and> endswith_slash (butlast k))"

definition no_double_slash :: "'a manager_scheme \<Rightarrow> bool" where
  "no_double_slash s = (\<forall>k \<in> set (keys s). \<not> double_slash k)"

definition markers_kept :: "'a manager_scheme \<Rightarrow> 'a manager_scheme \<Rightarrow> bool" where
  "markers_kept s s' = (\<forall>m \<in> set (keys s). endswith_slash m \<longrightarrow> m \<in> set (keys s'))"

definition kept :: "'a manager_scheme \<Rightarrow> 'a manager_scheme \<Rightarrow> bool" where
  "kept s s' =
     (maxsize s' = maxsize s \<and> (cache_inv s \<longrightarrow> cache_inv s')
      \<and> set (keys s') \<subseteq> set (keys s)
      \<and> (no_double_slash s \<longrightarrow> markers_kept s s'))"

text \<open>
  \<open>stored key val s s'\<close> relates the state before an insertion of \<open>val\<close> under \<open>key\<close>
  to the state after it: as \<open>kept\<close>, but the key may have appeared, the bookkeeping needs
  the new weight to be non-negative, and the markers need the new key not to end in two
  slashes either.
\<close>

definition stored :: "string \<Rightarrow> entry \<Rightarrow> 'a manager_scheme \<Rightarrow> 'a manager_scheme \<Rightarrow> bool" where
  "stored key val s s' =
     (maxsize s' = maxsize s
      \<and> (cache_inv s \<and> 0 \<le> computeFileSize val \<longrightarrow> cache_inv s')
      \<and> set (keys s') \<subseteq> insert key (set (keys s))
      \<and> (no_double_slash s \<and> \<not> double_slash key \<longrightarrow> markers_kept s s'))"

text \<open>
  \<open>same_store w w'\<close>: nothing outside the cache manager has changed between two worlds,
  neither the bucket nor the clock nor the log of requests.
\<close>

definition same_store :: "world \<Rightarrow> world \<Rightarrow> bool" where
  "same_store w w' =
     (store w' = store w \<and> bucket w' = bucket w \<and> clock w' = clock w
      \<and> ticks w' = ticks w \<and> requests w' = requests w \<and> cwd w' = cwd w)"

section \<open>Concrete runs\<close>

text \<open>
  \<open>and_then m f\<close> continues a run with the state that \<open>m\<close> leaves, provided
  \<open>m\<close> returned normally; a set-up step that raises or does not return makes the whole
  run \<open>None\<close>.
\<close>

definition and_then :: "('a, 's) result option \<Rightarrow> ('s \<Rightarrow> 'b option) \<Rightarrow> 'b option" where
  "and_then m f = (case m of Some (Inr _, s) \<Rightarrow> f s | _ \<Rightarrow> None)"

definition fresh_manager :: "int \<Rightarrow> manager option" where
  "fresh_manager max_size =
     (case init_manager ''cache'' max_size [] of Inl e \<Rightarrow> None | Inr s \<Rightarrow> Some s)"

text \<open>
  A cache holding the file \<^verbatim>\<open>a/b/c.txt\<close> and the markers \<^verbatim>\<open>a/b/\<close> and \<^verbatim>\<open>a/\<close>, built
  the way the bulk copy builds it: files first, markers afterwards.
\<close>

definition one_file_tree :: "manager option" where
  "one_file_tree =
     Option.bind (fresh_manager 100) (\<lambda>s0.
     and_then (put_file ''a/b/c.txt'' 1 ''xyz'' s0) (\<lambda>s1.
     and_then (put_folder ''a/b/'' 5 s1) (\<lambda>s2.
     and_then (put_folder ''a/'' 5 s2) Some)))"

text \<open>The same with a second file \<^verbatim>\<open>a/b/d.txt\<close> beside the first.\<close>

definition two_file_tree :: "manager option" where
  "two_file_tree =
     Option.bind (fresh_manager 100) (\<lambda>s0.
     and_then (put_file ''a/b/c.txt'' 1 ''xyz'' s0) (\<lambda>s1.
     and_then (put_file ''a/b/d.txt'' 1 ''uvw'' s1) (\<lambda>s2.
     and_then (put_folder ''a/b/'' 5 s2) (\<lambda>s3.
     and_then (put_folder ''a/'' 5 s3) Some))))"

text \<open>What a run shows of its outcome: the result, the cached keys and the disk paths.\<close>

definition observe :: "('a, manager) result option \<Rightarrow> ((exn + 'a) \<times> string list \<times> dpath list) option" where
  "observe m = map_option (\<lambda>(r, s). (r, keys s, map fst (disk s))) m"

text \<open>
  The cache of \<open>one_file_tree\<close> after a further file \<^verbatim>\<open>z.txt\<close> was stored, which makes
  \<^verbatim>\<open>z.txt\<close> the most recently used key.
\<close>

definition sample_cache :: manager where
  "sample_cache =
     \<lparr>cache_path = ''cache'', maxsize = 100, currsize = 5,
      cache_data = [(''a/b/c.txt'', 1, ''cache/a/b/c.txt'', 3), (''a/b/'', 5, ''cache/a/b/'', 0),
                    (''a/'', 5, ''cache/a/'', 0), (''z.txt'', 1, ''cache/z.txt'', 2)],
      disk = [((False, [''cache'']), Dir), ((False, [''cache'', ''a'']), Dir),
              ((False, [''cache'', ''a'', ''b'']), Dir),
              ((False, [''cache'', ''a'', ''b'', ''c.txt'']), File ''xyz''),
              ((False, [''cache'', ''z.txt'']), File ''zz'')]\<rparr>"

text \<open>
  A cache of maximum size 4 that holds the file \<^verbatim>\<open>a\<close> of three bytes, the least recently
  used key, and the marker \<^verbatim>\<open>d/\<close> of an empty directory.
\<close>

definition small_manager :: manager where
  "small_manager =
     \<lparr>cache_path = ''cache'', maxsize = 4, currsize = 0, cache_data = [],
      disk = [((False, [''cache'']), Dir)]\<rparr>"

definition marker_and_file :: manager where
  "marker_and_file =
     \<lparr>cache_path = ''cache'', maxsize = 4, currsize = 3,
      cache_data = [(''a'', 1, ''cache/a'', 3), (''d/'', 2, ''cache/d/'', 0)],
      disk = [((False, [''cache'']), Dir), ((False, [''cache'', ''a'']), File ''xxx''),
              ((False, [''cache'', ''d'']), Dir)]\<rparr>"

text \<open>
  The runs of the provider use the prefix \<^verbatim>\<open>/\<close>, which the constructor empties, and a
  check of paths that rejects the paths that start with a slash. \<open>fresh_world\<close> is a
  newly created cache manager of the given maximum size before a store that answers and
  holds the given objects; the clock stands at 0 and advances by the given steps.
\<close>

definition root_provider :: provider where
  "root_provider = S3FSProvider ''/'' (\<lambda>p. \<not> startswith_slash p)"

definition fresh_world :: "int \<Rightarrow> (string \<times> int \<times> string) list \<Rightarrow> int list \<Rightarrow> world option" where
  "fresh_world max_size objects steps =
     (case init_manager ''cache'' max_size [] of
        Inl e \<Rightarrow> None
      | Inr m \<Rightarrow>
          Some \<lparr>cache_path = cache_path m, maxsize = maxsize m, currsize = currsize m,
                cache_data = cache_data m, disk = disk m,
                store = Up, bucket = objects, clock = 0, ticks = steps,
                requests = [], cwd = [''srv'']\<rparr>)"

text \<open>
  What a run of the provider shows: the result, the cached keys with their timestamps,
  the keys of the bucket and the requests sent.
\<close>

definition outcome ::
  "('a, world) result option
   \<Rightarrow> ((exn + 'a) \<times> (string \<times> int) list \<times> string list \<times> request list) option" where
  "outcome m =
     map_option (\<lambda>(r, w). (r, map (\<lambda>(k, ts, _). (k, ts)) (cache_data w), map fst (bucket w), requests w)) m"

text \<open>The requests that a call sends, given the world before it.\<close>

definition requests_of :: "world \<Rightarrow> ('a, world) result option \<Rightarrow> request list option" where
  "requests_of w m = map_option (\<lambda>(r, w'). drop (length (requests w)) (requests w')) m"

text \<open>
  A world whose store holds the one object \<^verbatim>\<open>f.txt\<close>, last modified at 5, before an empty
  cache of maximum size 100.
\<close>

definition served_world :: world where
  "served_world =
     \<lparr>cache_path = ''cache'', maxsize = 100, currsize = 0, cache_data = [],
      disk = [((False, [''cache'']), Dir)],
      store = Up, bucket = [(''f.txt'', 5, ''hello'')], clock = 0, ticks = [1, 1, 1, 1],
      requests = [], cwd = [''srv'']\<rparr>"

text \<open>
  The world \<open>served_world\<close> after \<^verbatim>\<open>f.txt\<close> was read, and a world after the folder
  \<^verbatim>\<open>d/\<close> with the one object \<^verbatim>\<open>d/f\<close> was copied to the disk.
\<close>

definition cached_world :: "world option" where
  "cached_world = and_then (get_fd root_provider ''f.txt'' None served_world) Some"

definition copied_world :: "world option" where
  "copied_world =
     Option.bind (fresh_world 100 [(''d/f'', 1, ''x'')] [10, 1, 1, 1])
       (\<lambda>w. and_then (copy_from root_provider (Some ''d/'') ''out'' w) Some)"

text \<open>
  A world whose store holds the two objects \<^verbatim>\<open>d/f\<close> and \<^verbatim>\<open>d/g\<close> of the folder \<^verbatim>\<open>d/\<close>,
  before an empty cache.
\<close>

definition folder_world :: world where
  "folder_world =
     \<lparr>cache_path = ''cache'', maxsize = 100, currsize = 0, cache_data = [],
      disk = [((False, [''cache'']), Dir)],
      store = Up, bucket = [(''d/f'', 5, ''hello''), (''d/g'', 6, ''world'')], clock = 0, ticks = [],
      requests = [], cwd = [''srv'']\<rparr>"
section \<open>Lemmas on paths\<close>

lemma head_prefix: "\<exists>t. p = rev (dropWhile P (rev p)) @ t"
proof -
  have "rev (dropWhile P (rev p)) @ rev (takeWhile P (rev p))
          = rev (takeWhile P (rev p) @ dropWhile P (rev p))" by (simp only: rev_append)
  also have "\<dots> = p" by simp
  finally have "p = rev (dropWhile P (rev p)) @ rev (takeWhile P (rev p))" by (rule sym)
  then show ?thesis by (rule exI)
qed

lemma rstrip_prefix: "\<exists>t. p = rstrip_slash p @ t"
  unfolding rstrip_slash_def by (rule head_prefix)

lemma rstrip_shorter:
  assumes "p \<noteq> []" "last p = CHR ''/''"
  shows "length (rstrip_slash p) < length p"
proof -
  from assms obtain q where q: "p = q @ [CHR ''/'']"
    by (metis append_butlast_last_id)
  have "length (dropWhile (\<lambda>c. c = CHR ''/'') (rev q)) \<le> length (rev q)"
    by (rule length_dropWhile_le)
  then show ?thesis by (simp add: rstrip_slash_def q)
qed

lemma head_last:
  assumes "rev (dropWhile (\<lambda>c. c \<noteq> CHR ''/'') (rev p)) \<noteq> []"
  shows "last (rev (dropWhile (\<lambda>c. c \<noteq> CHR ''/'') (rev p))) = CHR ''/''"
proof -
  let ?d = "dropWhile (\<lambda>c. c \<noteq> CHR ''/'') (rev p)"
  from assms have "?d \<noteq> []" by simp
  then have "\<not> (hd ?d \<noteq> CHR ''/'')" by (rule hd_dropWhile)
  with \<open>?d \<noteq> []\<close> show ?thesis by (simp add: last_rev)
qed

lemma split_head_shorter:
  assumes "p \<noteq> []" "\<not> startswith_slash p"
  shows "length (split_head p) < length p"
proof -
  let ?h = "rev (dropWhile (\<lambda>c. c \<noteq> CHR ''/'') (rev p))"
  obtain t where pt: "p = ?h @ t" using head_prefix by blast
  show ?thesis
  proof (cases "?h = []")
    case True
    have "split_head p = (if ?h \<noteq> [] \<and> \<not> list_all (\<lambda>c. c = CHR ''/'') ?h then rstrip_slash ?h else ?h)"
      by (simp add: split_head_def Let_def)
    also have "\<dots> = ?h" using True by (simp only: not_False_eq_True simp_thms if_False)
    finally have "split_head p = []" using True by (simp only:)
    then show ?thesis using assms by simp
  next
    case False
    then have hdh: "hd ?h = hd p" using pt by (metis hd_append2)
    from assms have hp: "hd p \<noteq> CHR ''/''" by (cases p) (auto simp: startswith_slash_def)
    from False have hin: "hd ?h \<in> set ?h" by (rule hd_in_set)
    have nall: "\<not> list_all (\<lambda>c. c = CHR ''/'') ?h"
    proof
      assume "list_all (\<lambda>c. c = CHR ''/'') ?h"
      then have "\<forall>c\<in>set ?h. c = CHR ''/''" by (simp only: list_all_iff)
      with hin have "hd ?h = CHR ''/''" by blast
      with hdh hp show False by simp
    qed
    with False have sh: "split_head p = rstrip_slash ?h" by (simp add: split_head_def Let_def)
    have "length (rstrip_slash ?h) < length ?h" using False head_last[OF False] by (rule rstrip_shorter)
    moreover have "length ?h \<le> length p"
      using length_dropWhile_le[of "\<lambda>c. c \<noteq> CHR ''/''" "rev p"] by simp
    ultimately show ?thesis using sh by simp
  qed
qed

lemma split_head_relative:
  assumes "\<not> startswith_slash p"
  shows "\<not> startswith_slash (split_head p)"
proof -
  let ?h = "rev (dropWhile (\<lambda>c. c \<noteq> CHR ''/'') (rev p))"
  obtain t where pt: "p = ?h @ t" using head_prefix by blast
  obtain t' where ht: "?h = rstrip_slash ?h @ t'" using rstrip_prefix by blast
  have rel_prefix: "\<And>a b. \<not> startswith_slash (a @ b) \<Longrightarrow> \<not> startswith_slash a"
    by (case_tac a) (auto simp: startswith_slash_def)
  have h: "\<not> startswith_slash ?h" using assms pt rel_prefix by metis
  then have "\<not> startswith_slash (rstrip_slash ?h)" using ht rel_prefix by metis
  with h show ?thesis by (simp add: split_head_def Let_def)
qed


section \<open>The loop over the parents\<close>

lemma up_parents_walk:
  "length p \<le> n \<Longrightarrow> \<not> startswith_slash p \<Longrightarrow>
   up_parents p s = Some (fold touch_if (map (\<lambda>a. a @ ''/'') (walk n p)) s)"
proof (induction n arbitrary: p s)
  case 0
  then have "p = []" by simp
  then show ?case by (subst up_parents.simps) simp
next
  case (Suc n)
  show ?case
  proof (cases "p = []")
    case True
    then show ?thesis by (subst up_parents.simps) simp
  next
    case False
    have len: "length (split_head p) \<le> n"
      using split_head_shorter[OF False Suc.prems(2)] Suc.prems(1) by simp
    have rel: "\<not> startswith_slash (split_head p)"
      using Suc.prems(2) by (rule split_head_relative)
    have "up_parents p s = up_parents (split_head p) (touch_if (split_head p @ ''/'') s)"
      using False by (subst up_parents.simps) (simp add: Let_def touch_if_def)
    also have "\<dots> = Some (fold touch_if (map (\<lambda>a. a @ ''/'') (walk n (split_head p)))
                         (touch_if (split_head p @ ''/'') s))"
      using len rel by (rule Suc.IH)
    finally show ?thesis using False by simp
  qed
qed

lemma strip_slash_relative: "\<not> startswith_slash p \<Longrightarrow> \<not> startswith_slash (strip_slash p)"
  by (cases p) (auto simp: strip_slash_def startswith_slash_def split: list.splits)

lemma strip_slash_length: "length (strip_slash p) \<le> length p"
  by (simp add: strip_slash_def)

lemma getitem_relative:
  assumes "map_of (cache_data s) path = Some v" "\<not> startswith_slash path"
  shows "getitem path s = Some (Inr v, touch_all path s)"
proof -
  have "up_parents (strip_slash path) (lru_update path s)
          = Some (fold touch_if (map (\<lambda>a. a @ ''/'') (walk (length path) (strip_slash path)))
                    (lru_update path s))"
    using strip_slash_length strip_slash_relative[OF assms(2)] by (rule up_parents_walk)
  then show ?thesis using assms(1) by (simp add: getitem_def touch_all_def parent_markers_def)
qed

lemma prefix_absolute: "startswith_slash (a @ b) \<Longrightarrow> a \<noteq> [] \<Longrightarrow> startswith_slash a"
  by (cases a) (auto simp: startswith_slash_def)

lemma rstrip_empty: "rstrip_slash h = [] \<Longrightarrow> list_all (\<lambda>c. c = CHR ''/'') h"
proof -
  assume "rstrip_slash h = []"
  then have "dropWhile (\<lambda>c. c = CHR ''/'') (rev h) = []" by (simp add: rstrip_slash_def)
  then have "\<forall>c\<in>set (rev h). c = CHR ''/''" by (simp only: dropWhile_eq_Nil_conv)
  then show ?thesis by (simp add: list_all_iff)
qed

lemma absolute_split_head:
  assumes "startswith_slash p"
  shows "startswith_slash (split_head p)"
proof -
  let ?h = "rev (dropWhile (\<lambda>c. c \<noteq> CHR ''/'') (rev p))"
  from assms obtain t where p: "p = CHR ''/'' # t"
    by (cases p) (auto simp: startswith_slash_def)
  obtain u where pu: "p = ?h @ u" using head_prefix by blast
  have "CHR ''/'' \<in> set (rev p)" using p by simp
  then have "dropWhile (\<lambda>c. c \<noteq> CHR ''/'') (rev p) \<noteq> []"
    by (simp add: dropWhile_eq_Nil_conv)
  then have hne: "?h \<noteq> []" by simp
  have "startswith_slash (?h @ u)" using assms pu by simp
  then have sh: "startswith_slash ?h" using hne by (rule prefix_absolute)
  show ?thesis
  proof (cases "list_all (\<lambda>c. c = CHR ''/'') ?h")
    case True
    with sh show ?thesis by (simp add: split_head_def Let_def)
  next
    case False
    obtain w where hw: "?h = rstrip_slash ?h @ w" using rstrip_prefix by blast
    have rne: "rstrip_slash ?h \<noteq> []" using False rstrip_empty by blast
    have "startswith_slash (rstrip_slash ?h @ w)" using sh hw by simp
    then have "startswith_slash (rstrip_slash ?h)" using rne by (rule prefix_absolute)
    with False hne show ?thesis by (simp add: split_head_def Let_def)
  qed
qed

lemma up_parents_absolute_aux: "up_parents p s = Some y \<Longrightarrow> \<not> startswith_slash p"
proof (erule up_parents.raw_induct[rotated 1])
  fix f :: "string \<Rightarrow> 'a manager_scheme \<Rightarrow> 'a manager_scheme option" and cur_path s y
  assume IH: "\<And>a b y. f a b = Some y \<Longrightarrow> \<not> startswith_slash a"
    and eq: "(if cur_path \<noteq> [] then
        (let cur = split_head cur_path
         in f cur (if contains (cur @ ''/'') s then lru_update (cur @ ''/'') s else s))
      else Some s) = Some y"
  show "\<not> startswith_slash cur_path"
  proof
    assume a: "startswith_slash cur_path"
    then have "cur_path \<noteq> []" by (auto simp: startswith_slash_def)
    with eq have "f (split_head cur_path) (if contains (split_head cur_path @ ''/'') s
        then lru_update (split_head cur_path @ ''/'') s else s) = Some y"
      by (simp add: Let_def)
    then have "\<not> startswith_slash (split_head cur_path)" by (rule IH)
    with absolute_split_head[OF a] show False by simp
  qed
qed

lemma up_parents_absolute: "startswith_slash p \<Longrightarrow> up_parents p s = None"
  using up_parents_absolute_aux by (cases "up_parents p s") auto

section \<open>The order of the keys after a touch\<close>

lemma contains_iff: "contains k s \<longleftrightarrow> k \<in> set (keys s)"
  by (simp add: contains_def keys_def map_of_eq_None_iff)

lemma map_fst_filter_key:
  "map fst (filter (\<lambda>(k', _). k' \<noteq> k) es) = removeAll k (map fst es)"
  by (induction es) auto

lemma keys_lru_update:
  "keys (lru_update k s) = (if k \<in> set (keys s) then removeAll k (keys s) @ [k] else keys s)"
proof (cases "map_of (cache_data s) k")
  case None
  then have "k \<notin> set (keys s)" by (simp add: keys_def map_of_eq_None_iff)
  with None show ?thesis by (simp add: lru_update_def)
next
  case (Some v)
  then have "k \<in> set (keys s)" unfolding keys_def by (metis map_of_eq_None_iff option.distinct(1) set_map)
  with Some show ?thesis by (simp add: lru_update_def keys_def map_fst_filter_key)
qed

lemma keys_touch_if:
  "keys (touch_if k s) = (if k \<in> set (keys s) then removeAll k (keys s) @ [k] else keys s)"
  by (simp add: touch_if_def contains_iff keys_lru_update)

lemma set_keys_touch_if: "set (keys (touch_if k s)) = set (keys s)"
  by (auto simp: keys_touch_if)

lemma filter_removeAll:
  "filter P (removeAll m xs) = filter (\<lambda>k. k \<noteq> m \<and> P k) xs"
  by (induction xs) auto

lemma keys_fold_touch_if:
  "distinct ms \<Longrightarrow>
   keys (fold touch_if ms s)
     = filter (\<lambda>k. k \<notin> set (filter (\<lambda>m. m \<in> set (keys s)) ms)) (keys s)
       @ filter (\<lambda>m. m \<in> set (keys s)) ms"
proof (induction ms arbitrary: s)
  case Nil
  then show ?case by simp
next
  case (Cons m ms)
  let ?s1 = "touch_if m s"
  have set1: "set (keys ?s1) = set (keys s)" by (rule set_keys_touch_if)
  from Cons.prems have d: "distinct ms" and nm: "m \<notin> set ms" by simp_all
  have IH: "keys (fold touch_if ms ?s1)
     = filter (\<lambda>k. k \<notin> set (filter (\<lambda>x. x \<in> set (keys s)) ms)) (keys ?s1)
       @ filter (\<lambda>x. x \<in> set (keys s)) ms"
    using Cons.IH[OF d, of ?s1] by (simp only: set1)
  show ?case
  proof (cases "m \<in> set (keys s)")
    case True
    then have k1: "keys ?s1 = removeAll m (keys s) @ [m]" by (simp add: keys_touch_if)
    have fm: "filter (\<lambda>x. x \<in> set (keys s)) (m # ms) = m # filter (\<lambda>x. x \<in> set (keys s)) ms"
      using True by simp
    have nf: "m \<notin> set (filter (\<lambda>x. x \<in> set (keys s)) ms)" using nm by simp
    show ?thesis
      unfolding fold_simps IH k1 fm filter_append
      using nf by (simp add: filter_removeAll)
  next
    case False
    then have k1: "keys ?s1 = keys s" by (simp add: keys_touch_if)
    show ?thesis using False IH k1 by simp
  qed
qed


lemma walk_shorter:
  "\<not> startswith_slash p \<Longrightarrow> a \<in> set (walk n p) \<Longrightarrow> length a < length p"
proof (induction n arbitrary: p)
  case 0
  then show ?case by simp
next
  case (Suc n)
  from Suc.prems(2) have ne: "p \<noteq> []" by (auto split: if_splits)
  have sh: "length (split_head p) < length p" using ne Suc.prems(1) by (rule split_head_shorter)
  from Suc.prems(2) ne have "a = split_head p \<or> a \<in> set (walk n (split_head p))" by simp
  then show ?case
  proof
    assume "a = split_head p"
    with sh show ?thesis by simp
  next
    assume "a \<in> set (walk n (split_head p))"
    with split_head_relative[OF Suc.prems(1)] have "length a < length (split_head p)"
      by (rule Suc.IH)
    with sh show ?thesis by simp
  qed
qed

lemma walk_distinct: "\<not> startswith_slash p \<Longrightarrow> distinct (walk n p)"
proof (induction n arbitrary: p)
  case 0
  then show ?case by simp
next
  case (Suc n)
  have rel: "\<not> startswith_slash (split_head p)" using Suc.prems by (rule split_head_relative)
  have "split_head p \<notin> set (walk n (split_head p))"
    using walk_shorter[OF rel] by blast
  moreover have "distinct (walk n (split_head p))" using rel by (rule Suc.IH)
  ultimately show ?case by simp
qed

lemma parent_markers_distinct:
  assumes "\<not> startswith_slash path"
  shows "distinct (parent_markers path)"
proof -
  have "distinct (walk (length path) (strip_slash path))"
    using strip_slash_relative[OF assms] by (rule walk_distinct)
  moreover have "inj_on (\<lambda>a. a @ ''/'') (set (walk (length path) (strip_slash path)))"
    by (rule inj_onI) simp
  ultimately show ?thesis by (simp add: parent_markers_def distinct_map)
qed

lemma path_not_parent_marker:
  assumes "\<not> startswith_slash path"
  shows "path \<notin> set (parent_markers path)"
proof
  assume "path \<in> set (parent_markers path)"
  then obtain a where a: "a \<in> set (walk (length path) (strip_slash path))" and pa: "path = a @ ''/''"
    by (auto simp: parent_markers_def)
  have "length a < length (strip_slash path)"
    using strip_slash_relative[OF assms] a by (rule walk_shorter)
  moreover have "strip_slash path = a" using pa by (simp add: strip_slash_def endswith_slash_def)
  ultimately show False by simp
qed

lemma keys_touch_all:
  assumes "\<not> startswith_slash path" "path \<in> set (keys s)"
  shows "keys (touch_all path s)
           = filter (\<lambda>k. k \<notin> set (recent_keys path (keys s))) (keys s) @ recent_keys path (keys s)"
proof -
  let ?s0 = "lru_update path s"
  let ?T = "filter (\<lambda>m. m \<in> set (keys s)) (parent_markers path)"
  have k0: "keys ?s0 = removeAll path (keys s) @ [path]" using assms(2) by (simp add: keys_lru_update)
  then have set0: "set (keys ?s0) = set (keys s)" using assms(2) by auto
  have "keys (touch_all path s)
          = filter (\<lambda>k. k \<notin> set ?T) (keys ?s0) @ ?T"
    unfolding touch_all_def
    using keys_fold_touch_if[OF parent_markers_distinct[OF assms(1)], of ?s0] by (simp only: set0)
  moreover have "path \<notin> set ?T" using path_not_parent_marker[OF assms(1)] by simp
  ultimately show ?thesis by (simp add: k0 recent_keys_def filter_removeAll)
qed

lemma set_keys_fold_touch_if: "set (keys (fold touch_if ms s)) = set (keys s)"
  by (induction ms arbitrary: s) (simp_all add: set_keys_touch_if)

lemma set_keys_touch_all: "set (keys (touch_all path s)) = set (keys s)"
  by (auto simp: touch_all_def set_keys_fold_touch_if keys_lru_update)



lemma sample_cache_reached:
  "Option.bind one_file_tree (\<lambda>s. and_then (put_file ''z.txt'' 1 ''zz'' s) Some) = Some sample_cache"
  by code_simp

lemma recent_keys_cong: "set ks = set ks' \<Longrightarrow> recent_keys path ks = recent_keys path ks'"
  by (simp add: recent_keys_def)

lemma map_of_keys: "map_of (cache_data s) k = Some v \<Longrightarrow> k \<in> set (keys s)"
  unfolding keys_def by (metis map_of_eq_None_iff option.distinct(1) set_map)

lemma map_fst_replace:
  "map fst (map (\<lambda>(k', v'). if k' = key then (k', val) else (k', v')) es) = map fst es"
  by (induction es) auto

lemma keys_replace:
  "keys (s\<lparr>cache_data := map (\<lambda>(k', v'). if k' = key then (k', val) else (k', v')) (cache_data s),
            currsize := c\<rparr>) = keys s"
  unfolding keys_def using map_fst_replace[of key val "cache_data s"] by simp

lemma keys_append:
  "keys (s\<lparr>cache_data := cache_data s @ [(k, v)], currsize := c\<rparr>) = keys s @ [k]"
  by (simp add: keys_def)

lemma cache_setitem_key:
  "cache_setitem path val s = Some (Inr (), s1) \<Longrightarrow> path \<in> set (keys s1)"
  unfolding cache_setitem_def Let_def
  by (auto split: if_splits option.splits sum.splits prod.splits
           simp: keys_replace keys_append dest: map_of_keys)

lemma setitem_relative:
  assumes "\<not> startswith_slash path" "setitem path val s = Some (Inr (), s')"
  shows "\<exists>s1. cache_setitem path val s = Some (Inr (), s1) \<and> s' = touch_all path s1"
proof -
  have up: "\<And>s1. up_parents (strip_slash path) (lru_update path s1)
          = Some (touch_all path s1)"
    unfolding touch_all_def parent_markers_def
    using strip_slash_length strip_slash_relative[OF assms(1)] by (rule up_parents_walk)
  from assms(2) show ?thesis
    by (auto simp: setitem_def up split: option.splits sum.splits prod.splits)
qed

text \<open>
  A cached path that starts with a slash, other than \<^verbatim>\<open>/\<close> itself, cannot be read: the
  loop over its parents reaches \<^verbatim>\<open>/\<close> and stays there.
\<close>

lemma getitem_absolute:
  assumes "map_of (cache_data s) path = Some v" and "startswith_slash path" and "path \<noteq> ''/''"
  shows "getitem path s = None"
proof -
  from assms(2,3) obtain c t where p: "path = CHR ''/'' # c # t"
    by (cases path; cases "tl path") (auto simp: startswith_slash_def)
  then have "startswith_slash (strip_slash path)"
    by (simp add: strip_slash_def startswith_slash_def)
  then have "up_parents (strip_slash path) (lru_update path s) = None" by (rule up_parents_absolute)
  with assms(1) show ?thesis by (simp add: getitem_def)
qed

section \<open>The parents of the loop are the ancestors of the path\<close>

lemma proper_prefixes_snoc: "proper_prefixes (xs @ [x]) = xs # proper_prefixes xs"
proof -
  have "map (\<lambda>n. take n (xs @ [x])) (rev [0 ..< length xs]) = map (\<lambda>n. take n xs) (rev [0 ..< length xs])"
    by (rule map_cong) auto
  then show ?thesis by (simp add: proper_prefixes_def)
qed

lemma proper_prefixes_Nil: "proper_prefixes [] = []"
  by (simp add: proper_prefixes_def)

lemma slash_prefixes_snoc:
  "slash_prefixes (xs @ [x]) = (if endswith_slash xs then [xs] else []) @ slash_prefixes xs"
  by (simp add: slash_prefixes_def proper_prefixes_snoc)

lemma slash_prefixes_tail:
  "t \<noteq> [] \<Longrightarrow> CHR ''/'' \<notin> set t \<Longrightarrow>
   slash_prefixes (a @ t) = (if endswith_slash a then [a] else []) @ slash_prefixes a"
proof (induction t rule: rev_induct)
  case Nil
  then show ?case by simp
next
  case (snoc x t)
  show ?case
  proof (cases "t = []")
    case True
    then show ?thesis using slash_prefixes_snoc[of a x] by simp
  next
    case False
    from snoc.prems have nt: "CHR ''/'' \<notin> set t" by simp
    from False nt have "last t \<noteq> CHR ''/''" using last_in_set by metis
    with False have "\<not> endswith_slash (a @ t)" by (simp add: endswith_slash_def)
    then have "slash_prefixes (a @ t @ [x]) = slash_prefixes (a @ t)"
      using slash_prefixes_snoc[of "a @ t" x] by simp
    with snoc.IH[OF False nt] show ?thesis by simp
  qed
qed

lemma ancestor_markers_slash: "filter (\<lambda>d. d \<noteq> []) (ancestor_markers p) = slash_prefixes p"
proof -
  have "(\<lambda>d. d \<noteq> [] \<and> (d = [] \<or> endswith_slash d)) = endswith_slash"
    by (auto simp: endswith_slash_def)
  then show ?thesis by (simp add: ancestor_markers_def slash_prefixes_def conj_commute)
qed

lemma adjacent_slashes_left: "adjacent_slashes xs \<Longrightarrow> adjacent_slashes (xs @ ys)"
  by (induction xs rule: adjacent_slashes.induct) auto

lemma adjacent_slashes_right: "adjacent_slashes ys \<Longrightarrow> adjacent_slashes (xs @ ys)"
proof (induction xs)
  case Nil
  then show ?case by simp
next
  case (Cons a xs)
  then have "adjacent_slashes (xs @ ys)" by simp
  then show ?case by (cases "xs @ ys") auto
qed

lemma adjacent_slashes_mid: "adjacent_slashes (xs @ CHR ''/'' # CHR ''/'' # ys)"
  by (rule adjacent_slashes_right) simp


lemma split_head_no_slash:
  assumes "CHR ''/'' \<notin> set q"
  shows "split_head q = []"
proof -
  have "dropWhile (\<lambda>c. c \<noteq> CHR ''/'') (rev q) = []" using assms by auto
  then show ?thesis by (simp add: split_head_def)
qed

lemma split_head_last_slash:
  assumes "h \<noteq> []" "hd h \<noteq> CHR ''/''" "last h \<noteq> CHR ''/''" "CHR ''/'' \<notin> set t"
  shows "split_head (h @ CHR ''/'' # t) = h"
proof -
  have "dropWhile (\<lambda>c. c \<noteq> CHR ''/'') (rev t @ CHR ''/'' # rev h) = CHR ''/'' # rev h"
    using assms(4) by (subst dropWhile_append2) auto
  then have head: "rev (dropWhile (\<lambda>c. c \<noteq> CHR ''/'') (rev (h @ CHR ''/'' # t))) = h @ [CHR ''/'']"
    by simp
  from assms(1,2) have "\<not> list_all (\<lambda>c. c = CHR ''/'') (h @ [CHR ''/''])"
    by (cases h) auto
  moreover have "rstrip_slash (h @ [CHR ''/'']) = h"
  proof -
    from assms(1,3) have "hd (rev h) \<noteq> CHR ''/''" by (simp add: hd_rev)
    moreover from assms(1) have "rev h \<noteq> []" by simp
    ultimately have "dropWhile (\<lambda>c. c = CHR ''/'') (rev h) = rev h" by (cases "rev h") auto
    then show ?thesis by (simp add: rstrip_slash_def)
  qed
  ultimately show ?thesis unfolding split_head_def Let_def head by simp
qed

lemma walk_Nil: "walk n [] = []"
  by (cases n) simp_all

lemma walk_slash_prefixes:
  assumes "length q \<le> n" "q \<noteq> []" "\<not> startswith_slash q" "\<not> endswith_slash q" "\<not> adjacent_slashes q"
  shows "map (\<lambda>a. a @ ''/'') (walk n q) = slash_prefixes q @ [''/'']"
  using assms
proof (induction n arbitrary: q)
  case 0
  then show ?case by simp
next
  case (Suc n)
  show ?case
  proof (cases "CHR ''/'' \<in> set q")
    case False
    then have sh: "split_head q = []" by (rule split_head_no_slash)
    have "slash_prefixes ([] @ q) = (if endswith_slash [] then [[]] else []) @ slash_prefixes []"
      using Suc.prems(2) False by (rule slash_prefixes_tail)
    then have "slash_prefixes q = []"
      by (simp add: endswith_slash_def slash_prefixes_def proper_prefixes_Nil)
    with sh Suc.prems(2) show ?thesis by (simp add: walk_Nil)
  next
    case True
    then obtain h t where q: "q = h @ CHR ''/'' # t" and nt: "CHR ''/'' \<notin> set t"
      using split_list_last by fastforce
    from Suc.prems(4) have t: "t \<noteq> []" by (auto simp: q endswith_slash_def)
    from Suc.prems(3) have h: "h \<noteq> []" by (auto simp: q startswith_slash_def)
    from Suc.prems(3) h have hh: "hd h \<noteq> CHR ''/''" by (cases h) (auto simp: q startswith_slash_def)
    have lh: "last h \<noteq> CHR ''/''"
    proof
      assume "last h = CHR ''/''"
      with h have "h = butlast h @ [CHR ''/'']" by (metis append_butlast_last_id)
      then have "q = butlast h @ CHR ''/'' # CHR ''/'' # t" unfolding q by (metis append.assoc append_Cons append_Nil)
      then have "adjacent_slashes q" using adjacent_slashes_mid by metis
      with Suc.prems(5) show False by simp
    qed
    have sh: "split_head q = h" unfolding q using h hh lh nt by (rule split_head_last_slash)
    have len: "length h \<le> n" using Suc.prems(1) by (simp add: q)
    have rel: "\<not> startswith_slash h" using hh h by (cases h) (auto simp: startswith_slash_def)
    have ne: "\<not> endswith_slash h" using lh by (simp add: endswith_slash_def)
    have na: "\<not> adjacent_slashes h" using Suc.prems(5) adjacent_slashes_left unfolding q by blast
    have IH: "map (\<lambda>a. a @ ''/'') (walk n h) = slash_prefixes h @ [''/'']"
      using len h rel ne na by (rule Suc.IH)
    have "slash_prefixes ((h @ [CHR ''/'']) @ t)
            = (if endswith_slash (h @ [CHR ''/'']) then [h @ [CHR ''/'']] else [])
              @ slash_prefixes (h @ [CHR ''/''])"
      using t nt by (rule slash_prefixes_tail)
    then have "slash_prefixes q = (h @ ''/'') # slash_prefixes h"
      using ne by (simp add: q endswith_slash_def slash_prefixes_snoc)
    with sh IH Suc.prems(2) show ?thesis by simp
  qed
qed

lemma parent_markers_ancestors:
  assumes "path \<noteq> []" "\<not> startswith_slash path" "\<not> adjacent_slashes path"
  shows "parent_markers path = filter (\<lambda>d. d \<noteq> []) (ancestor_markers path) @ [''/'']"
proof -
  let ?q = "strip_slash path"
  have "length ?q \<le> length path \<and> ?q \<noteq> [] \<and> \<not> startswith_slash ?q \<and> \<not> endswith_slash ?q
        \<and> \<not> adjacent_slashes ?q \<and> slash_prefixes path = slash_prefixes ?q"
  proof (cases "endswith_slash path")
    case False
    with assms show ?thesis by (simp add: strip_slash_def)
  next
    case True
    then have p: "path = butlast path @ [CHR ''/'']"
      by (metis append_butlast_last_id endswith_slash_def)
    let ?b = "butlast path"
    have b: "?b \<noteq> []"
    proof
      assume "?b = []"
      with p have "path = ''/''" by simp
      with assms(2) show False by (simp add: startswith_slash_def)
    qed
    have nb: "\<not> endswith_slash ?b"
    proof
      assume "endswith_slash ?b"
      then have "?b = butlast ?b @ [CHR ''/'']"
        by (metis append_butlast_last_id endswith_slash_def)
      with p have "path = butlast ?b @ CHR ''/'' # CHR ''/'' # []" by (metis append.assoc append_Cons append_Nil)
      then have "adjacent_slashes path" using adjacent_slashes_mid by metis
      with assms(3) show False by simp
    qed
    have "\<not> adjacent_slashes ?b" using assms(3) adjacent_slashes_left p by metis
    moreover have "\<not> startswith_slash ?b" using assms(2) strip_slash_relative[of path] True
      by (simp add: strip_slash_def)
    moreover have "slash_prefixes path = slash_prefixes ?b"
      using slash_prefixes_snoc[of ?b "CHR ''/''"] nb p by simp
    ultimately show ?thesis using True b nb by (simp add: strip_slash_def)
  qed
  then show ?thesis
    using walk_slash_prefixes[of ?q "length path"]
    by (simp add: parent_markers_def ancestor_markers_slash)
qed

lemma recent_keys_marked:
  assumes "path \<noteq> []" "\<not> startswith_slash path" "\<not> adjacent_slashes path"
  shows "recent_keys path ks = marked_keys path ks"
  by (simp add: recent_keys_def marked_keys_def parent_markers_ancestors[OF assms])

section \<open>Moving a key keeps the entries\<close>

lemma map_of_filter_key:
  "map_of (filter (\<lambda>(k', _). k' \<noteq> k) xs) k' = (if k' = k then None else map_of xs k')"
  by (induction xs) auto





lemma get_absent: "\<not> contains path s \<Longrightarrow> get path t s = Some (Inr None, s)"
  by (simp add: get_def)
section \<open>What removals and insertions keep\<close>

lemma kept_refl: "kept s s"
  by (simp add: kept_def markers_kept_def)

lemma no_double_slash_subset:
  "set (keys s') \<subseteq> set (keys s) \<Longrightarrow> no_double_slash s \<Longrightarrow> no_double_slash s'"
  by (auto simp: no_double_slash_def)

lemma kept_trans: "kept s s1 \<Longrightarrow> kept s1 s2 \<Longrightarrow> kept s s2"
proof -
  assume a: "kept s s1" and b: "kept s1 s2"
  from a have "set (keys s1) \<subseteq> set (keys s)" by (simp add: kept_def)
  then have n1: "no_double_slash s \<Longrightarrow> no_double_slash s1"
    by (rule no_double_slash_subset)
  show ?thesis
    unfolding kept_def
  proof (intro conjI impI)
    show "maxsize s2 = maxsize s" using a b by (simp add: kept_def)
    show "cache_inv s2" if "cache_inv s" using a b that by (simp add: kept_def)
    show "set (keys s2) \<subseteq> set (keys s)" using a b by (auto simp: kept_def)
    show "markers_kept s s2" if "no_double_slash s"
      using a b n1[OF that] that by (auto simp: kept_def markers_kept_def)
  qed
qed

lemma alist_key_unique:
  "distinct (map fst es) \<Longrightarrow> map_of es k = Some v \<Longrightarrow> (k, v') \<in> set es \<Longrightarrow> v' = v"
  by (drule (1) map_of_is_SomeI) simp

lemma alist_move_set:
  assumes "distinct (map fst es)" "map_of es k = Some v"
  shows "set (filter (\<lambda>(k', _). k' \<noteq> k) es @ [(k, v)]) = set es"
proof (rule set_eqI)
  fix x :: "'a \<times> 'b"
  obtain k1 v1 where x: "x = (k1, v1)" by (cases x)
  have kv: "(k, v) \<in> set es" using assms(2) by (rule map_of_SomeD)
  show "x \<in> set (filter (\<lambda>(k', _). k' \<noteq> k) es @ [(k, v)]) \<longleftrightarrow> x \<in> set es"
  proof (cases "k1 = k")
    case True
    have "(k, v1) \<in> set es \<Longrightarrow> v1 = v" using assms by (rule alist_key_unique)
    with kv show ?thesis unfolding x True by (simp add: conj_commute) blast
  next
    case False
    then show ?thesis unfolding x by simp
  qed
qed

lemma filter_key_absent:
  "k \<notin> fst ` set es \<Longrightarrow> filter (\<lambda>(k', _). k' \<noteq> k) es = es"
  by (induction es) auto

lemma alist_remove_sum:
  fixes f :: "'k \<times> 'v \<Rightarrow> int"
  shows "distinct (map fst es) \<Longrightarrow> map_of es k = Some v \<Longrightarrow>
   sum_list (map f (filter (\<lambda>(k', _). k' \<noteq> k) es)) = sum_list (map f es) - f (k, v)"
proof (induction es)
  case Nil
  then show ?case by simp
next
  case (Cons a es)
  obtain k1 v1 where a: "a = (k1, v1)" by (cases a)
  show ?case
  proof (cases "k1 = k")
    case True
    with Cons.prems a have "v1 = v" and "k \<notin> fst ` set es" by auto
    then show ?thesis using a True by (simp add: filter_key_absent)
  next
    case False
    with Cons.prems a have "distinct (map fst es)" and "map_of es k = Some v" by auto
    then have "sum_list (map f (filter (\<lambda>(k', _). k' \<noteq> k) es)) = sum_list (map f es) - f (k, v)"
      by (rule Cons.IH)
    then show ?thesis using a False by simp
  qed
qed

lemma total_weight_lru_update:
  "distinct (keys s) \<Longrightarrow> total_weight (lru_update k s) = total_weight s"
proof (cases "map_of (cache_data s) k")
  case None
  then show ?thesis by (simp add: lru_update_def)
next
  case (Some v)
  assume "distinct (keys s)"
  then have d: "distinct (map fst (cache_data s))" by (simp add: keys_def)
  show ?thesis
    using Some alist_remove_sum[OF d Some, of "\<lambda>(k, v). computeFileSize v"]
    by (simp add: lru_update_def total_weight_def)
qed

lemma set_cache_data_lru_update:
  "distinct (keys s) \<Longrightarrow> set (cache_data (lru_update k s)) = set (cache_data s)"
proof (cases "map_of (cache_data s) k")
  case None
  then show ?thesis by (simp add: lru_update_def)
next
  case (Some v)
  assume "distinct (keys s)"
  then have d: "distinct (map fst (cache_data s))" by (simp add: keys_def)
  show ?thesis using Some alist_move_set[OF d Some] by (simp add: lru_update_def)
qed

lemma distinct_keys_lru_update: "distinct (keys s) \<Longrightarrow> distinct (keys (lru_update k s))"
  by (simp add: keys_lru_update distinct_removeAll)

lemma lru_update_fields:
  "maxsize (lru_update k s) = maxsize s" "currsize (lru_update k s) = currsize s"
  "disk (lru_update k s) = disk s"
  by (simp_all add: lru_update_def split: option.splits)

lemma cache_inv_lru_update: "cache_inv s \<Longrightarrow> cache_inv (lru_update k s)"
  unfolding cache_inv_def
  by (simp add: distinct_keys_lru_update set_cache_data_lru_update total_weight_lru_update
        lru_update_fields)

lemma kept_lru_update: "kept s (lru_update k s)"
  unfolding kept_def markers_kept_def
  by (auto simp: lru_update_fields cache_inv_lru_update keys_lru_update)

lemma kept_touch_if: "kept s (touch_if k s)"
  by (simp add: touch_if_def kept_lru_update kept_refl)

lemma up_parents_kept: "up_parents p s = Some s' \<Longrightarrow> kept s s'"
proof (erule up_parents.raw_induct[rotated 1])
  fix f :: "string \<Rightarrow> 'a manager_scheme \<Rightarrow> 'a manager_scheme option" and cur_path s y
  assume IH: "\<And>a b y. f a b = Some y \<Longrightarrow> kept b y"
    and eq: "(if cur_path \<noteq> [] then
        (let cur = split_head cur_path
         in f cur (if contains (cur @ ''/'') s then lru_update (cur @ ''/'') s else s))
      else Some s) = Some y"
  show "kept s y"
  proof (cases "cur_path = []")
    case True
    with eq show ?thesis by (simp add: kept_refl)
  next
    case False
    with eq have "f (split_head cur_path) (touch_if (split_head cur_path @ ''/'') s) = Some y"
      by (simp add: Let_def touch_if_def)
    then have "kept (touch_if (split_head cur_path @ ''/'') s) y" by (rule IH)
    with kept_touch_if show ?thesis by (rule kept_trans)
  qed
qed

lemma getitem_kept:
  assumes "getitem path s = Some (r, s')"
  shows "kept s s'"
proof (cases "map_of (cache_data s) path")
  case None
  with assms have "s' = s" by (simp add: getitem_def)
  then show ?thesis by (simp add: kept_refl)
next
  case (Some v)
  with assms have "up_parents (strip_slash path) (lru_update path s) = Some s'"
    by (simp add: getitem_def split: option.splits)
  then have "kept (lru_update path s) s'" by (rule up_parents_kept)
  with kept_lru_update show ?thesis by (rule kept_trans)
qed

lemma getitem_found: "getitem path s = Some (Inr v, s') \<Longrightarrow> path \<in> set (keys s)"
  unfolding getitem_def by (auto split: option.splits dest: map_of_keys)


lemma kept_disk: "kept s (s\<lparr>disk := d\<rparr>)"
  by (simp add: kept_def cache_inv_def keys_def total_weight_def markers_kept_def)

lemma unlink_step_kept: "unlink_step path dp s = (r, s') \<Longrightarrow> kept s s'"
  unfolding unlink_step_def Let_def
  by (auto split: if_splits sum.splits simp: kept_disk kept_refl)

lemma markers_kept_trans: "markers_kept s s1 \<Longrightarrow> markers_kept s1 s2 \<Longrightarrow> markers_kept s s2"
  by (simp add: markers_kept_def)

lemma lru_delitem_basic:
  assumes "lru_delitem key s = (r, s')"
  shows "maxsize s' = maxsize s" and "cache_inv s \<Longrightarrow> cache_inv s'"
    and "set (keys s') \<subseteq> set (keys s)" and "\<not> endswith_slash key \<Longrightarrow> markers_kept s s'"
proof -
  show "maxsize s' = maxsize s" using assms by (auto simp: lru_delitem_def split: option.splits)
  show "set (keys s') \<subseteq> set (keys s)"
    using assms by (auto simp: lru_delitem_def keys_def split: option.splits)
  show "markers_kept s s'" if "\<not> endswith_slash key"
    using assms that
    by (auto simp: lru_delitem_def keys_def markers_kept_def map_fst_filter_key split: option.splits)
  show "cache_inv s'" if inv: "cache_inv s"
  proof (cases "map_of (cache_data s) key")
    case None
    with assms inv show ?thesis by (simp add: lru_delitem_def)
  next
    case (Some v)
    let ?es = "filter (\<lambda>(k', _). k' \<noteq> key) (cache_data s)"
    from assms Some have s': "s' = s\<lparr>cache_data := ?es, currsize := currsize s - computeFileSize v\<rparr>"
      by (simp add: lru_delitem_def)
    from inv have d: "distinct (map fst (cache_data s))" by (simp add: cache_inv_def keys_def)
    have mem: "(key, v) \<in> set (cache_data s)" using Some by (rule map_of_SomeD)
    with inv have w: "0 \<le> computeFileSize v" by (auto simp: cache_inv_def)
    have tw: "total_weight s' = total_weight s - computeFileSize v"
      unfolding s' total_weight_def
      using alist_remove_sum[OF d Some, of "\<lambda>(k, v). computeFileSize v"] by simp
    have dk: "distinct (keys s')"
      unfolding s' keys_def using d by (simp add: map_fst_filter_key distinct_removeAll)
    have nn: "\<forall>(k, v) \<in> set (cache_data s'). 0 \<le> computeFileSize v"
      unfolding s' using inv by (auto simp: cache_inv_def)
    have cs: "currsize s' = currsize s - computeFileSize v" "maxsize s' = maxsize s"
      unfolding s' by simp_all
    show ?thesis
      unfolding cache_inv_def using dk nn tw cs w inv by (simp add: cache_inv_def)
  qed
qed

lemma strip_slash_not_marker: "\<not> double_slash path \<Longrightarrow> \<not> endswith_slash (strip_slash path)"
  by (simp add: double_slash_def strip_slash_def)


lemma delitem_kept_aux: "delitem path s = Some y \<Longrightarrow> kept s (snd y)"
proof (erule delitem.raw_induct[rotated 1])
  fix f :: "string \<Rightarrow> 'a manager_scheme \<Rightarrow> (unit, 'a manager_scheme) result option"
    and path s y
  assume IH: "\<And>a b y. f a b = Some y \<Longrightarrow> kept b (snd y)"
    and eq: "(case getitem path s of
        None \<Rightarrow> None
      | Some (Inl e, s1) \<Rightarrow> Some (Inl e, s1)
      | Some (Inr (timestamp, disk_path, weight), s1) \<Rightarrow>
          (case unlink_step path disk_path s1 of
             (Inl e, s2) \<Rightarrow> Some (Inl e, s2)
           | (Inr _, s2) \<Rightarrow>
               (let path' = strip_slash path;
                    sub = split_head path'
                in Option.bind
                     (if sub \<noteq> [] \<and> contains (sub @ ''/'') s2
                      then f (sub @ ''/'') s2 else Some (Inr (), s2))
                     (\<lambda>(r, s3). case r of
                                   Inl e \<Rightarrow> Some (Inl e, s3)
                                 | Inr _ \<Rightarrow> Some (lru_delitem path' s3))))) = Some y"
  from eq obtain r1 s1 where g: "getitem path s = Some (r1, s1)"
    by (cases "getitem path s") auto
  have k1: "kept s s1" using g by (rule getitem_kept)
  show "kept s (snd y)"
  proof (cases r1)
    case (Inl e)
    with eq g have "y = (Inl e, s1)" by simp
    with k1 show ?thesis by simp
  next
    case (Inr v)
    obtain ts dp w where v: "v = (ts, dp, w)" by (cases v)
    have inpath: "path \<in> set (keys s)" using g unfolding Inr by (rule getitem_found)
    obtain r2 s2 where u: "unlink_step path dp s1 = (r2, s2)" by (cases "unlink_step path dp s1")
    have k2: "kept s s2" using k1 unlink_step_kept[OF u] by (rule kept_trans)
    show ?thesis
    proof (cases r2)
      case (Inl e)
      with eq g Inr v u have "y = (Inl e, s2)" by simp
      with k2 show ?thesis by simp
    next
      case r2: (Inr u2)
      let ?sub = "split_head (strip_slash path)"
      let ?m = "if ?sub \<noteq> [] \<and> contains (?sub @ ''/'') s2
                then f (?sub @ ''/'') s2 else Some (Inr (), s2)"
      from eq g Inr v u r2 have b: "Option.bind ?m (\<lambda>(r, s3). case r of
                                   Inl e \<Rightarrow> Some (Inl e, s3)
                                 | Inr _ \<Rightarrow> Some (lru_delitem (strip_slash path) s3)) = Some y"
        by (simp add: Let_def)
      then obtain r3 s3 where m: "?m = Some (r3, s3)"
        by (cases ?m) auto
      have "kept s2 s3"
      proof (cases "?sub \<noteq> [] \<and> contains (?sub @ ''/'') s2")
        case True
        with m have "f (?sub @ ''/'') s2 = Some (r3, s3)" by simp
        from IH[OF this] show ?thesis by simp
      next
        case False
        with m have "s3 = s2" by simp
        then show ?thesis by (simp add: kept_refl)
      qed
      with k2 have k3: "kept s s3" by (rule kept_trans)
      show ?thesis
      proof (cases r3)
        case (Inl e)
        with b m have "y = (Inl e, s3)" by simp
        with k3 show ?thesis by simp
      next
        case r3: (Inr u3)
        obtain r4 s4 where d: "lru_delitem (strip_slash path) s3 = (r4, s4)"
          by (cases "lru_delitem (strip_slash path) s3")
        from b m r3 d have y: "y = (r4, s4)" by simp
        note basic = lru_delitem_basic[OF d]
        have "kept s s4"
          unfolding kept_def
        proof (intro conjI impI)
          show "maxsize s4 = maxsize s" using basic(1) k3 by (simp add: kept_def)
          show "cache_inv s4" if "cache_inv s" using basic(2) k3 that by (simp add: kept_def)
          show "set (keys s4) \<subseteq> set (keys s)" using basic(3) k3 by (auto simp: kept_def)
          show "markers_kept s s4" if nd: "no_double_slash s"
          proof -
            from nd inpath have "\<not> double_slash path" by (simp add: no_double_slash_def)
            then have "\<not> endswith_slash (strip_slash path)" by (rule strip_slash_not_marker)
            then have "markers_kept s3 s4" by (rule basic(4))
            moreover have "markers_kept s s3" using k3 nd by (simp add: kept_def)
            ultimately show ?thesis using markers_kept_trans by blast
          qed
        qed
        with y show ?thesis by simp
      qed
    qed
  qed
qed

lemma delitem_kept: "delitem path s = Some (r, s') \<Longrightarrow> kept s s'"
  using delitem_kept_aux[of path s "(r, s')"] by simp

lemma popitem_kept: "popitem s = Some (r, s') \<Longrightarrow> kept s s'"
proof -
  assume a: "popitem s = Some (r, s')"
  show ?thesis
  proof (cases "cache_data s")
    case Nil
    with a have "s' = s" by (simp add: popitem_def)
    then show ?thesis by (simp add: kept_refl)
  next
    case (Cons kv rest)
    obtain key v0 where kv: "kv = (key, v0)" by (cases kv)
    from a Cons kv obtain r1 s1 where g: "getitem key s = Some (r1, s1)"
      by (cases "getitem key s") (auto simp: popitem_def)
    have k1: "kept s s1" using g by (rule getitem_kept)
    show ?thesis
    proof (cases r1)
      case (Inl e)
      with a Cons kv g have "s' = s1" by (simp add: popitem_def)
      with k1 show ?thesis by simp
    next
      case (Inr val)
      with a Cons kv g obtain r2 s2 where d: "delitem key s1 = Some (r2, s2)"
        by (cases "delitem key s1") (auto simp: popitem_def)
      have k2: "kept s s2" using k1 delitem_kept[OF d] by (rule kept_trans)
      from a Cons kv g Inr d have "s' = s2" by (cases r2) (simp_all add: popitem_def)
      with k2 show ?thesis by simp
    qed
  qed
qed

lemma evict_kept_aux:
  "evict sz s = Some y \<Longrightarrow> kept s (snd y) \<and> (fst y = Inr () \<longrightarrow> currsize (snd y) + sz \<le> maxsize (snd y))"
proof (erule evict.raw_induct[rotated 1])
  fix f :: "int \<Rightarrow> 'a manager_scheme \<Rightarrow> (unit, 'a manager_scheme) result option"
    and sz s y
  assume IH: "\<And>a b y. f a b = Some y \<Longrightarrow>
                kept b (snd y) \<and> (fst y = Inr () \<longrightarrow> currsize (snd y) + a \<le> maxsize (snd y))"
    and eq: "(if currsize s + sz > maxsize s then
        (case popitem s of
           None \<Rightarrow> None
         | Some (Inl e, s1) \<Rightarrow> Some (Inl e, s1)
         | Some (Inr _, s1) \<Rightarrow> f sz s1)
      else Some (Inr (), s)) = Some y"
  show "kept s (snd y) \<and> (fst y = Inr () \<longrightarrow> currsize (snd y) + sz \<le> maxsize (snd y))"
  proof (cases "currsize s + sz > maxsize s")
    case False
    with eq have "y = (Inr (), s)" by simp
    with False show ?thesis by (simp add: kept_refl)
  next
    case True
    with eq obtain r1 s1 where p: "popitem s = Some (r1, s1)"
      by (cases "popitem s") auto
    have k1: "kept s s1" using p by (rule popitem_kept)
    show ?thesis
    proof (cases r1)
      case (Inl e)
      with eq True p have "y = (Inl e, s1)" by simp
      with k1 show ?thesis by simp
    next
      case (Inr kv)
      with eq True p have "f sz s1 = Some y" by simp
      from IH[OF this] k1 show ?thesis by (blast intro: kept_trans)
    qed
  qed
qed

lemma evict_kept: "evict sz s = Some (r, s') \<Longrightarrow> kept s s'"
  using evict_kept_aux[of sz s "(r, s')"] by simp

lemma evict_room: "evict sz s = Some (Inr (), s') \<Longrightarrow> currsize s' + sz \<le> maxsize s'"
  using evict_kept_aux[of sz s "(Inr (), s')"] by simp


lemma kept_stored: "kept s s' \<Longrightarrow> stored key val s s'"
  by (auto simp: kept_def stored_def)

lemma stored_kept:
  assumes "stored key val s s1" "kept s1 s2"
  shows "stored key val s s2"
  unfolding stored_def
proof (intro conjI impI)
  show "maxsize s2 = maxsize s" using assms by (simp add: stored_def kept_def)
  show "cache_inv s2" if "cache_inv s \<and> 0 \<le> computeFileSize val"
    using assms that by (simp add: stored_def kept_def)
  show "set (keys s2) \<subseteq> insert key (set (keys s))"
    using assms by (auto simp: stored_def kept_def)
  show "markers_kept s s2" if nd: "no_double_slash s \<and> \<not> double_slash key"
  proof -
    from assms(1) have sub: "set (keys s1) \<subseteq> insert key (set (keys s))" by (simp add: stored_def)
    have "no_double_slash s1"
      unfolding no_double_slash_def
    proof
      fix k assume "k \<in> set (keys s1)"
      with sub have "k = key \<or> k \<in> set (keys s)" by blast
      with nd show "\<not> double_slash k" by (auto simp: no_double_slash_def)
    qed
    with assms(2) have "markers_kept s1 s2" by (simp add: kept_def)
    moreover from assms(1) nd have "markers_kept s s1" by (simp add: stored_def)
    ultimately show ?thesis using markers_kept_trans by blast
  qed
qed

lemma kept_then_stored:
  assumes "kept s0 s" "stored key val s s'"
  shows "stored key val s0 s'"
  unfolding stored_def
proof (intro conjI impI)
  show "maxsize s' = maxsize s0" using assms by (simp add: stored_def kept_def)
  show "cache_inv s'" if "cache_inv s0 \<and> 0 \<le> computeFileSize val"
    using assms that by (simp add: stored_def kept_def)
  show "set (keys s') \<subseteq> insert key (set (keys s0))"
    using assms by (auto simp: stored_def kept_def)
  show "markers_kept s0 s'" if nd: "no_double_slash s0 \<and> \<not> double_slash key"
  proof -
    from assms(1) have "set (keys s) \<subseteq> set (keys s0)" by (simp add: kept_def)
    with nd have "no_double_slash s" using no_double_slash_subset by blast
    with assms(2) nd have "markers_kept s s'" by (simp add: stored_def)
    moreover from assms(1) nd have "markers_kept s0 s" by (simp add: kept_def)
    ultimately show ?thesis using markers_kept_trans by blast
  qed
qed

lemma alist_replace_sum:
  fixes f :: "'k \<times> 'v \<Rightarrow> int"
  shows "distinct (map fst es) \<Longrightarrow> map_of es k = Some old \<Longrightarrow>
   sum_list (map f (map (\<lambda>(k', v'). if k' = k then (k', val) else (k', v')) es))
     = sum_list (map f es) - f (k, old) + f (k, val)"
proof (induction es)
  case Nil
  then show ?case by simp
next
  case (Cons a es)
  obtain k1 v1 where a: "a = (k1, v1)" by (cases a)
  show ?case
  proof (cases "k1 = k")
    case True
    with Cons.prems a have v1: "v1 = old" and nk: "k \<notin> fst ` set es" by auto
    have "map (\<lambda>(k', v'). if k' = k then (k', val) else (k', v')) es = es"
      using nk by (induction es) auto
    then show ?thesis using a True v1 by simp
  next
    case False
    with Cons.prems a have "distinct (map fst es)" and "map_of es k = Some old" by auto
    then have "sum_list (map f (map (\<lambda>(k', v'). if k' = k then (k', val) else (k', v')) es))
     = sum_list (map f es) - f (k, old) + f (k, val)"
      by (rule Cons.IH)
    then show ?thesis using a False by simp
  qed
qed

lemma set_replace:
  "set (map (\<lambda>(k', v'). if k' = k then (k', val) else (k', v')) es) \<subseteq> insert (k, val) (set es)"
  by (induction es) auto

lemma nonneg_replace:
  "\<forall>(k, v) \<in> set es. (0::int) \<le> g v \<Longrightarrow> 0 \<le> g val \<Longrightarrow>
   \<forall>(k, v) \<in> set (map (\<lambda>(k', v'). if k' = key then (k', val) else (k', v')) es). 0 \<le> g v"
  by (induction es) (auto split: if_splits)

lemma cache_inv_replace:
  assumes inv: "cache_inv s1" and old: "map_of (cache_data s1) key = Some old"
    and w: "0 \<le> computeFileSize val"
    and room: "currsize s1 + (computeFileSize val - computeFileSize old) \<le> maxsize s1"
  shows "cache_inv (s1\<lparr>cache_data := map (\<lambda>(k', v'). if k' = key then (k', val) else (k', v'))
                                         (cache_data s1),
                       currsize := currsize s1 + (computeFileSize val - computeFileSize old)\<rparr>)"
    (is "cache_inv ?s'")
proof -
  from inv have d: "distinct (map fst (cache_data s1))" by (simp add: cache_inv_def keys_def)
  have dk: "distinct (keys ?s')" using inv by (simp add: keys_replace cache_inv_def)
  have nn: "\<forall>(k, v) \<in> set (cache_data ?s'). 0 \<le> computeFileSize v"
    using nonneg_replace[of "cache_data s1" computeFileSize val key] inv w
    by (simp add: cache_inv_def)
  have tw: "total_weight ?s' = total_weight s1 - computeFileSize old + computeFileSize val"
    unfolding total_weight_def
    using alist_replace_sum[OF d old, of "\<lambda>(k, v). computeFileSize v" val] by simp
  show ?thesis
    unfolding cache_inv_def using dk nn tw room inv by (simp add: cache_inv_def)
qed

lemma cache_inv_append:
  assumes inv: "cache_inv s1" and new: "map_of (cache_data s1) key = None"
    and w: "0 \<le> computeFileSize val"
    and room: "currsize s1 + computeFileSize val \<le> maxsize s1"
  shows "cache_inv (s1\<lparr>cache_data := cache_data s1 @ [(key, val)],
                       currsize := currsize s1 + computeFileSize val\<rparr>)"
proof -
  from new have "key \<notin> set (keys s1)" by (simp add: keys_def map_of_eq_None_iff)
  then show ?thesis
    using inv w room by (auto simp: cache_inv_def keys_def total_weight_def)
qed


lemma cache_setitem_stored:
  assumes a: "cache_setitem key val s = Some (r, s')"
  shows "stored key val s s'"
proof (cases "computeFileSize val > maxsize s")
  case True
  with a have "s' = s" by (simp add: cache_setitem_def)
  then show ?thesis by (simp add: kept_stored kept_refl)
next
  case fits: False
  let ?sz = "computeFileSize val"
  let ?grow = "case map_of (cache_data s) key of None \<Rightarrow> True | Some old \<Rightarrow> computeFileSize old < ?sz"
  let ?m = "if ?grow then evict ?sz s else Some (Inr (), s)"
  from a fits obtain r1 s1 where m: "?m = Some (r1, s1)"
    by (cases ?m) (auto simp: cache_setitem_def Let_def)
  have k1: "kept s s1"
  proof (cases ?grow)
    case True
    with m have "evict ?sz s = Some (r1, s1)" by simp
    then show ?thesis by (rule evict_kept)
  next
    case False
    with m have "s1 = s" by simp
    then show ?thesis by (simp add: kept_refl)
  qed
  show ?thesis
  proof (cases r1)
    case (Inl e)
    with a fits m have "s' = s1" by (simp add: cache_setitem_def Let_def)
    with k1 show ?thesis by (simp add: kept_stored)
  next
    case r1: (Inr u)
    have room: "?grow \<Longrightarrow> currsize s1 + ?sz \<le> maxsize s1"
    proof -
      assume g: ?grow
      with m r1 have "evict ?sz s = Some (Inr (), s1)" by simp
      then show ?thesis by (rule evict_room)
    qed
    show ?thesis
    proof (cases "map_of (cache_data s1) key")
      case None
      let ?s' = "s1\<lparr>cache_data := cache_data s1 @ [(key, val)], currsize := currsize s1 + ?sz\<rparr>"
      from a fits m r1 None have s': "s' = ?s'" by (simp add: cache_setitem_def Let_def)
      have grow: ?grow
      proof (rule ccontr)
        assume ng: "\<not> ?grow"
        with m have "s1 = s" by simp
        with None ng show False by simp
      qed
      have inv': "cache_inv s \<and> 0 \<le> ?sz \<Longrightarrow> cache_inv ?s'"
      proof -
        assume h: "cache_inv s \<and> 0 \<le> ?sz"
        with k1 have "cache_inv s1" by (simp add: kept_def)
        then show ?thesis using None h room[OF grow] by (simp add: cache_inv_append)
      qed
      have keys': "keys ?s' = keys s1 @ [key]" by (rule keys_append)
      show ?thesis
        unfolding stored_def s'
      proof (intro conjI impI)
        show "maxsize ?s' = maxsize s" using k1 by (simp add: kept_def)
        show "cache_inv ?s'" if "cache_inv s \<and> 0 \<le> ?sz" using that by (rule inv')
        show "set (keys ?s') \<subseteq> insert key (set (keys s))"
          unfolding keys' using k1 by (auto simp: kept_def)
        show "markers_kept s ?s'" if "no_double_slash s \<and> \<not> double_slash key"
        proof -
          from k1 that have "markers_kept s s1" by (simp add: kept_def)
          then show ?thesis unfolding markers_kept_def keys' by simp
        qed
      qed
    next
      case (Some old)
      let ?s' = "s1\<lparr>cache_data := map (\<lambda>(k', v'). if k' = key then (k', val) else (k', v'))
                                         (cache_data s1),
                       currsize := currsize s1 + (?sz - computeFileSize old)\<rparr>"
      from a fits m r1 Some have s': "s' = ?s'" by (simp add: cache_setitem_def Let_def)
      have keys': "keys ?s' = keys s1" by (rule keys_replace)
      have inv': "cache_inv s \<and> 0 \<le> ?sz \<Longrightarrow> cache_inv ?s'"
      proof -
        assume h: "cache_inv s \<and> 0 \<le> ?sz"
        with k1 have inv1: "cache_inv s1" by (simp add: kept_def)
        have "(key, old) \<in> set (cache_data s1)" using Some by (rule map_of_SomeD)
        with inv1 have wo: "0 \<le> computeFileSize old" by (auto simp: cache_inv_def)
        have "currsize s1 + (?sz - computeFileSize old) \<le> maxsize s1"
        proof (cases ?grow)
          case True
          from room[OF True] wo show ?thesis by simp
        next
          case False
          with m have eq: "s1 = s" by simp
          with False Some have "\<not> computeFileSize old < ?sz" by simp
          moreover from inv1 have "currsize s1 \<le> maxsize s1" by (simp add: cache_inv_def)
          ultimately show ?thesis by simp
        qed
        with inv1 Some h show ?thesis by (simp add: cache_inv_replace)
      qed
      show ?thesis
        unfolding stored_def s'
      proof (intro conjI impI)
        show "maxsize ?s' = maxsize s" using k1 by (simp add: kept_def)
        show "cache_inv ?s'" if "cache_inv s \<and> 0 \<le> ?sz" using that by (rule inv')
        show "set (keys ?s') \<subseteq> insert key (set (keys s))"
          unfolding keys' using k1 by (auto simp: kept_def)
        show "markers_kept s ?s'" if "no_double_slash s \<and> \<not> double_slash key"
        proof -
          from k1 that have "markers_kept s s1" by (simp add: kept_def)
          then show ?thesis unfolding markers_kept_def keys' by simp
        qed
      qed
    qed
  qed
qed

lemma setitem_stored:
  assumes a: "setitem path val s = Some (r, s')"
  shows "stored path val s s'"
proof -
  from a obtain r1 s1 where c: "cache_setitem path val s = Some (r1, s1)"
    by (cases "cache_setitem path val s") (auto simp: setitem_def)
  have st1: "stored path val s s1" using c by (rule cache_setitem_stored)
  show ?thesis
  proof (cases r1)
    case (Inl e)
    with a c have "s' = s1" by (simp add: setitem_def)
    with st1 show ?thesis by simp
  next
    case (Inr u)
    with a c have "up_parents (strip_slash path) (lru_update path s1) = Some s'"
      by (simp add: setitem_def split: option.splits)
    then have "kept (lru_update path s1) s'" by (rule up_parents_kept)
    with kept_lru_update have "kept s1 s'" by (rule kept_trans)
    with st1 show ?thesis by (rule stored_kept)
  qed
qed

lemma put_file_stored:
  assumes a: "put_file path ts content s = Some (r, s')"
  shows "\<exists>dp. stored path (ts, dp, int (length content)) s s'"
proof -
  let ?dp = "path_join (cache_path s) path"
  let ?val = "(ts, ?dp, int (length content))"
  show ?thesis
  proof (cases "os_makedirs (split_head ?dp) (disk s)")
    case (Inl e)
    with a have "s' = s" by (simp add: put_file_def Let_def)
    then have "stored path ?val s s'" by (simp add: kept_stored kept_refl)
    then show ?thesis ..
  next
    case d1: (Inr d1)
    show ?thesis
    proof (cases "os_write ?dp content d1")
      case (Inl e)
      with a d1 have "s' = s\<lparr>disk := d1\<rparr>" by (simp add: put_file_def Let_def)
      then have "stored path ?val s s'" by (simp add: kept_stored kept_disk)
      then show ?thesis ..
    next
      case (Inr d2)
      with a d1 have "setitem path ?val (s\<lparr>disk := d2\<rparr>) = Some (r, s')"
        by (simp add: put_file_def Let_def)
      then have "stored path ?val (s\<lparr>disk := d2\<rparr>) s'" by (rule setitem_stored)
      with kept_disk have "stored path ?val s s'" by (rule kept_then_stored)
      then show ?thesis ..
    qed
  qed
qed

lemma put_folder_stored:
  assumes a: "put_folder path ts s = Some (r, s')"
  shows "\<exists>dp. stored path (ts, dp, 0) s s'"
proof -
  let ?dp = "path_join (cache_path s) path"
  let ?val = "(ts, ?dp, 0::int)"
  show ?thesis
  proof (cases "os_makedirs (split_head ?dp) (disk s)")
    case (Inl e)
    with a have "s' = s" by (simp add: put_folder_def Let_def)
    then have "stored path ?val s s'" by (simp add: kept_stored kept_refl)
    then show ?thesis ..
  next
    case (Inr d1)
    with a have "setitem path ?val (s\<lparr>disk := d1\<rparr>) = Some (r, s')"
      by (simp add: put_folder_def Let_def)
    then have "stored path ?val (s\<lparr>disk := d1\<rparr>) s'" by (rule setitem_stored)
    with kept_disk have "stored path ?val s s'" by (rule kept_then_stored)
    then show ?thesis ..
  qed
qed

lemma insert_op_step:
  assumes a: "insert_op i s = Some (r, s')"
  shows "maxsize s' = maxsize s" and "cache_inv s \<Longrightarrow> cache_inv s'"
    and "no_double_slash s \<Longrightarrow> \<not> double_slash (insertion_path i) \<Longrightarrow>
         no_double_slash s' \<and> markers_kept s s'"
proof -
  have "\<exists>val. 0 \<le> computeFileSize val \<and> stored (insertion_path i) val s s'"
  proof (cases i)
    case (PutFile path ts content)
    with a obtain dp where "stored path (ts, dp, int (length content)) s s'"
      using put_file_stored by fastforce
    moreover have "0 \<le> computeFileSize (ts, dp, int (length content))"
      by (simp add: computeFileSize_def)
    ultimately show ?thesis using PutFile by (intro exI[of _ "(ts, dp, int (length content))"]) simp
  next
    case (PutFolder path ts)
    with a obtain dp where "stored path (ts, dp, 0) s s'"
      using put_folder_stored by fastforce
    moreover have "0 \<le> computeFileSize (ts, dp, 0)"
      by (simp add: computeFileSize_def)
    ultimately show ?thesis using PutFolder by (intro exI[of _ "(ts, dp, 0)"]) simp
  qed
  then obtain val where w: "0 \<le> computeFileSize val" and st: "stored (insertion_path i) val s s'"
    by blast
  show "maxsize s' = maxsize s" using st by (simp add: stored_def)
  show "cache_inv s'" if "cache_inv s" using st w that by (simp add: stored_def)
  show "no_double_slash s' \<and> markers_kept s s'"
    if nd: "no_double_slash s" and np: "\<not> double_slash (insertion_path i)"
  proof
    from st have sub: "set (keys s') \<subseteq> insert (insertion_path i) (set (keys s))"
      by (simp add: stored_def)
    show "no_double_slash s'"
      unfolding no_double_slash_def
    proof
      fix k assume "k \<in> set (keys s')"
      with sub have "k = insertion_path i \<or> k \<in> set (keys s)" by blast
      with nd np show "\<not> double_slash k" by (auto simp: no_double_slash_def)
    qed
    show "markers_kept s s'" using st nd np by (simp add: stored_def)
  qed
qed

lemma run_insertions_inv:
  "run_insertions ops s = Some s' \<Longrightarrow> cache_inv s \<Longrightarrow> cache_inv s' \<and> maxsize s' = maxsize s"
proof (induction ops arbitrary: s)
  case Nil
  then show ?case by simp
next
  case (Cons i ops)
  from Cons.prems(1) obtain r s1 where i: "insert_op i s = Some (r, s1)"
    and rest: "run_insertions ops s1 = Some s'"
    by (cases "insert_op i s") auto
  have "cache_inv s1" using insert_op_step(2)[OF i] Cons.prems(2) by simp
  with rest have "cache_inv s' \<and> maxsize s' = maxsize s1" by (rule Cons.IH)
  with insert_op_step(1)[OF i] show ?case by simp
qed


lemma init_manager_inv:
  "init_manager cpath max_size d = Inr s0 \<Longrightarrow> 0 \<le> max_size \<Longrightarrow>
   cache_inv s0 \<and> maxsize s0 = max_size"
  by (auto simp: init_manager_def Let_def cache_inv_def keys_def total_weight_def split: sum.splits)

section \<open>The sample caches are reached by runs\<close>

lemma marker_and_file_reached:
  "run_insertions [PutFile ''a'' 1 ''xxx'', PutFolder ''d/'' 2] small_manager = Some marker_and_file"
  by code_simp

text \<open>
  Eviction does not look at weights: when a marker is the least recently used key,
  \<^verbatim>\<open>popitem\<close> takes it, and the insertion that needed the room raises.
\<close>

lemma eviction_takes_lru_marker:
  "map_option (\<lambda>(r, s). (r, keys s))
     (Option.bind (run_insertions [PutFolder ''d/'' 2, PutFile ''a'' 1 ''xxx''] small_manager)
        (put_file ''b'' 3 ''yy''))
   = Some (Inl OSError, [''a'', ''d/''])"
  by code_simp

section \<open>The cache manager leaves the store alone; the provider's handlers\<close>

lemma up_parents_frame:
  assumes refl: "\<And>s. R s s" and trans: "\<And>a b c. R a b \<Longrightarrow> R b c \<Longrightarrow> R a c"
    and upd: "\<And>k s. R s (lru_update k s)"
  shows "up_parents p s = Some s' \<Longrightarrow> R s s'"
proof (erule up_parents.raw_induct[rotated 1])
  fix f :: "string \<Rightarrow> 'a manager_scheme \<Rightarrow> 'a manager_scheme option" and cur_path s y
  assume IH: "\<And>a b y. f a b = Some y \<Longrightarrow> R b y"
    and eq: "(if cur_path \<noteq> [] then
        (let cur = split_head cur_path
         in f cur (if contains (cur @ ''/'') s then lru_update (cur @ ''/'') s else s))
      else Some s) = Some y"
  show "R s y"
  proof (cases "cur_path = []")
    case True
    with eq show ?thesis by (simp add: refl)
  next
    case False
    let ?s1 = "if contains (split_head cur_path @ ''/'') s
               then lru_update (split_head cur_path @ ''/'') s else s"
    from False eq have "f (split_head cur_path) ?s1 = Some y" by (simp add: Let_def)
    then have "R ?s1 y" by (rule IH)
    moreover have "R s ?s1" by (simp add: refl upd)
    ultimately show ?thesis using trans by blast
  qed
qed

lemma getitem_frame:
  assumes refl: "\<And>s. R s s" and trans: "\<And>a b c. R a b \<Longrightarrow> R b c \<Longrightarrow> R a c"
    and upd: "\<And>k s. R s (lru_update k s)"
    and g: "getitem path s = Some (r, s')"
  shows "R s s'"
proof (cases "map_of (cache_data s) path")
  case None
  with g have "s' = s" by (simp add: getitem_def)
  then show ?thesis by (simp add: refl)
next
  case (Some v)
  with g have "up_parents (strip_slash path) (lru_update path s) = Some s'"
    by (simp add: getitem_def split: option.splits)
  then have "R (lru_update path s) s'" using refl trans upd up_parents_frame[of R] by blast
  with upd[of s path] show ?thesis using trans by blast
qed

lemma delitem_frame_aux:
  assumes refl: "\<And>s. R s s" and trans: "\<And>a b c. R a b \<Longrightarrow> R b c \<Longrightarrow> R a c"
    and upd: "\<And>k s. R s (lru_update k s)"
    and unl: "\<And>p dp s r s'. unlink_step p dp s = (r, s') \<Longrightarrow> R s s'"
    and del: "\<And>k s r s'. lru_delitem k s = (r, s') \<Longrightarrow> R s s'"
  shows "delitem path s = Some y \<Longrightarrow> R s (snd y)"
proof (erule delitem.raw_induct[rotated 1])
  fix f :: "string \<Rightarrow> 'a manager_scheme \<Rightarrow> (unit, 'a manager_scheme) result option"
    and path s y
  assume IH: "\<And>a b y. f a b = Some y \<Longrightarrow> R b (snd y)"
    and eq: "(case getitem path s of
        None \<Rightarrow> None
      | Some (Inl e, s1) \<Rightarrow> Some (Inl e, s1)
      | Some (Inr (timestamp, disk_path, weight), s1) \<Rightarrow>
          (case unlink_step path disk_path s1 of
             (Inl e, s2) \<Rightarrow> Some (Inl e, s2)
           | (Inr _, s2) \<Rightarrow>
               (let path' = strip_slash path;
                    sub = split_head path'
                in Option.bind
                     (if sub \<noteq> [] \<and> contains (sub @ ''/'') s2
                      then f (sub @ ''/'') s2 else Some (Inr (), s2))
                     (\<lambda>(r, s3). case r of
                                   Inl e \<Rightarrow> Some (Inl e, s3)
                                 | Inr _ \<Rightarrow> Some (lru_delitem path' s3))))) = Some y"
  from eq obtain r1 s1 where g: "getitem path s = Some (r1, s1)"
    by (cases "getitem path s") auto
  have k1: "R s s1" using refl trans upd g by (rule getitem_frame)
  show "R s (snd y)"
  proof (cases r1)
    case (Inl e)
    with eq g have "y = (Inl e, s1)" by simp
    with k1 show ?thesis by simp
  next
    case (Inr v)
    obtain ts dp w where v: "v = (ts, dp, w)" by (cases v)
    obtain r2 s2 where u: "unlink_step path dp s1 = (r2, s2)" by (cases "unlink_step path dp s1")
    have k2: "R s s2" using k1 unl[OF u] trans by blast
    show ?thesis
    proof (cases r2)
      case (Inl e)
      with eq g Inr v u have "y = (Inl e, s2)" by simp
      with k2 show ?thesis by simp
    next
      case r2: (Inr u2)
      let ?sub = "split_head (strip_slash path)"
      let ?m = "if ?sub \<noteq> [] \<and> contains (?sub @ ''/'') s2
                then f (?sub @ ''/'') s2 else Some (Inr (), s2)"
      from eq g Inr v u r2 have b: "Option.bind ?m (\<lambda>(r, s3). case r of
                                   Inl e \<Rightarrow> Some (Inl e, s3)
                                 | Inr _ \<Rightarrow> Some (lru_delitem (strip_slash path) s3)) = Some y"
        by (simp add: Let_def)
      then obtain r3 s3 where m: "?m = Some (r3, s3)"
        by (cases ?m) auto
      have "R s2 s3"
      proof (cases "?sub \<noteq> [] \<and> contains (?sub @ ''/'') s2")
        case True
        with m have "f (?sub @ ''/'') s2 = Some (r3, s3)" by simp
        from IH[OF this] show ?thesis by simp
      next
        case False
        with m have "s3 = s2" by simp
        then show ?thesis by (simp add: refl)
      qed
      with k2 have k3: "R s s3" using trans by blast
      show ?thesis
      proof (cases r3)
        case (Inl e)
        with b m have "y = (Inl e, s3)" by simp
        with k3 show ?thesis by simp
      next
        case r3: (Inr u3)
        obtain r4 s4 where d: "lru_delitem (strip_slash path) s3 = (r4, s4)"
          by (cases "lru_delitem (strip_slash path) s3")
        from b m r3 d have y: "y = (r4, s4)" by simp
        from del[OF d] k3 have "R s s4" using trans by blast
        with y show ?thesis by simp
      qed
    qed
  qed
qed

lemma invalidate_frame_aux:
  assumes refl: "\<And>s. R s s"
    and del: "\<And>p s y. delitem p s = Some y \<Longrightarrow> R s (snd y)"
  shows "invalidate path s = Some y \<Longrightarrow> R s (snd y)"
proof (erule invalidate.raw_induct[rotated 1])
  fix f :: "string \<Rightarrow> 'a manager_scheme \<Rightarrow> (unit, 'a manager_scheme) result option"
    and path s y
  assume IH: "\<And>a b y. f a b = Some y \<Longrightarrow> R b (snd y)"
    and eq: "(if contains path s then delitem path s
      else
        (let path' = strip_slash path;
             sub = split_head path'
         in if sub \<noteq> [] then f (sub @ ''/'') s else Some (Inr (), s))) = Some y"
  show "R s (snd y)"
  proof (cases "contains path s")
    case True
    with eq have "delitem path s = Some y" by simp
    then show ?thesis by (rule del)
  next
    case nc: False
    show ?thesis
    proof (cases "split_head (strip_slash path) = []")
      case True
      with eq nc have "y = (Inr (), s)" by (simp add: Let_def)
      then show ?thesis by (simp add: refl)
    next
      case False
      with eq nc have "f (split_head (strip_slash path) @ ''/'') s = Some y" by (simp add: Let_def)
      then show ?thesis by (rule IH)
    qed
  qed
qed

lemma same_store_refl: "same_store w w"
  by (simp add: same_store_def)

lemma same_store_trans: "same_store a b \<Longrightarrow> same_store b c \<Longrightarrow> same_store a c"
  by (simp add: same_store_def)

lemma same_store_lru_update: "same_store w (lru_update k w)"
  by (simp add: same_store_def lru_update_def split: option.splits)

lemma same_store_unlink_step: "unlink_step p dp w = (r, w') \<Longrightarrow> same_store w w'"
  unfolding unlink_step_def Let_def
  by (auto simp: same_store_def split: if_splits sum.splits)

lemma same_store_lru_delitem: "lru_delitem k w = (r, w') \<Longrightarrow> same_store w w'"
  by (auto simp: lru_delitem_def same_store_def split: option.splits)

lemma delitem_same_store: "delitem p w = Some y \<Longrightarrow> same_store w (snd y)"
  using same_store_refl same_store_trans same_store_lru_update same_store_unlink_step
        same_store_lru_delitem
  by (rule delitem_frame_aux)

lemma invalidate_same_store: "invalidate p w = Some (r, w') \<Longrightarrow> same_store w w'"
  using invalidate_frame_aux[of same_store p w "(r, w')", OF same_store_refl delitem_same_store]
  by simp


lemma served_world_reached:
  "fresh_world 100 [(''f.txt'', 5, ''hello'')] [1, 1, 1, 1] = Some served_world"
  by code_simp

lemma get_same_store: "get p t w = Some (r, w') \<Longrightarrow> same_store w w'"
proof (cases "contains p w")
  case False
  then show "get p t w = Some (r, w') \<Longrightarrow> same_store w w'"
    by (simp add: get_def same_store_refl)
next
  case True
  assume g: "get p t w = Some (r, w')"
  with True obtain r1 where "getitem p w = Some (r1, w')"
    by (auto simp: get_def split: option.splits sum.splits prod.splits if_splits)
  with same_store_refl same_store_trans same_store_lru_update show ?thesis
    by (rule getitem_frame)
qed

lemma remote_put_frame:
  "remote_put k c w = (r, w') \<Longrightarrow> cache_data w' = cache_data w \<and> disk w' = disk w"
  unfolding remote_put_def Let_def sent_def now_def
  by (auto split: if_splits list.splits prod.splits option.splits)

lemma put_objects_frame:
  "put_objects ks w = Some (r, w') \<Longrightarrow> cache_data w' = cache_data w \<and> disk w' = disk w"
proof (induction ks arbitrary: w)
  case Nil
  then show ?case by simp
next
  case (Cons k ks)
  obtain r1 w1 where p: "remote_put k [] w = (r1, w1)" by (cases "remote_put k [] w")
  note f1 = remote_put_frame[OF p]
  show ?case
  proof (cases r1)
    case (Inl e)
    with Cons.prems p f1 show ?thesis by (auto simp: then_do_def)
  next
    case (Inr u)
    with Cons.prems p have "put_objects ks w1 = Some (r, w')" by (simp add: then_do_def)
    from Cons.IH[OF this] f1 show ?thesis by simp
  qed
qed

lemma put_file_remote_frame:
  assumes "put_file_remote fullpath c w = Some (r, w')"
  shows "cache_data w' = cache_data w \<and> disk w' = disk w"
proof -
  let ?ks = "rev (folder_keys [] (butlast (split_slash fullpath)))"
  obtain r1 w1 where p: "remote_put fullpath c w = (r1, w1)" by (cases "remote_put fullpath c w")
  note f1 = remote_put_frame[OF p]
  show ?thesis
  proof (cases r1)
    case (Inl e)
    with assms p f1 show ?thesis
      by (auto simp: put_file_remote_def then_do_def except_ClientError_def)
  next
    case (Inr u)
    with assms p obtain r2 where q: "put_objects ?ks w1 = Some (r2, w')"
      by (cases "put_objects ?ks w1")
         (auto simp: put_file_remote_def then_do_def except_ClientError_def split: sum.splits)
    from put_objects_frame[OF q] f1 show ?thesis by auto
  qed
qed

lemma put_frame:
  assumes "put pv fp c w = Some (r, w')"
  shows "cache_data w' = cache_data w \<and> disk w' = disk w"
proof (cases "valid_path pv fp \<and> \<not> endswith_slash (prefix pv @ fp)")
  case True
  with assms have "put_file_remote (prefix pv @ fp) c w = Some (r, w')"
    by (simp add: put_def checkpath_def then_do_def Let_def)
  then show ?thesis by (rule put_file_remote_frame)
next
  case False
  with assms show ?thesis
    by (auto simp: put_def checkpath_def then_do_def Let_def split: if_splits)
qed

section \<open>A write to a store that answers\<close>

lemma map_of_insort_key:
  "k \<notin> fst ` set xs \<Longrightarrow> map_of (insort_key fst (k, v) xs) = (map_of xs)(k \<mapsto> v)"
proof (induction xs)
  case Nil
  then show ?case by simp
next
  case (Cons x xs)
  then have ne: "fst x \<noteq> k" and IH: "map_of (insort_key fst (k, v) xs) = (map_of xs)(k \<mapsto> v)"
    by auto
  show ?case
  proof (cases "k \<le> fst x")
    case True
    then show ?thesis by (auto simp: fun_upd_def)
  next
    case False
    then have "map_of (insort_key fst (k, v) (x # xs)) = (map_of (insort_key fst (k, v) xs))(fst x \<mapsto> snd x)"
      by (cases x) simp
    also have "\<dots> = ((map_of xs)(fst x \<mapsto> snd x))(k \<mapsto> v)"
      unfolding IH using ne by (simp add: fun_upd_twist)
    also have "\<dots> = (map_of (x # xs))(k \<mapsto> v)" by (cases x) simp
    finally show ?thesis .
  qed
qed

lemma remote_put_up:
  assumes "k \<noteq> []" "store w = Up"
  shows "\<exists>t w'. remote_put k c w = (Inr (), w') \<and> store w' = Up
           \<and> requests w' = requests w @ [ReqPut k]
           \<and> map_of (bucket w') = (map_of (bucket w))(k \<mapsto> (t, c))"
proof -
  have f: "k \<notin> fst ` set (filter (\<lambda>(k', _). k' \<noteq> k) b)" for b :: "(string \<times> int \<times> string) list"
    by auto
  have m: "(map_of (filter (\<lambda>(k', _). k' \<noteq> k) b))(k \<mapsto> v) = (map_of b)(k \<mapsto> v)"
    for b :: "(string \<times> int \<times> string) list" and v
    by (rule ext) (simp add: map_of_filter_key)
  show ?thesis
    using assms
    by (cases "ticks w")
       (auto simp: remote_put_def Let_def sent_def now_def store_failure_def
                   map_of_insort_key[OF f] m)
qed

lemma folder_keys_slash: "k \<in> set (folder_keys acc ps) \<Longrightarrow> endswith_slash k"
  by (induction ps arbitrary: acc) (auto simp: endswith_slash_def)

lemma put_objects_up:
  assumes "store w = Up" "\<forall>k \<in> set ks. k \<noteq> []"
  shows "\<exists>w'. put_objects ks w = Some (Inr (), w') \<and> store w' = Up
           \<and> requests w' = requests w @ map ReqPut ks
           \<and> (\<forall>k. k \<notin> set ks \<longrightarrow> map_of (bucket w') k = map_of (bucket w) k)"
  using assms
proof (induction ks arbitrary: w)
  case Nil
  then show ?case by simp
next
  case (Cons k ks)
  from Cons.prems have "k \<noteq> []" by simp
  from remote_put_up[OF this Cons.prems(1), of "[]"] obtain t w1 where
    p: "remote_put k [] w = (Inr (), w1)" and u: "store w1 = Up"
    and r: "requests w1 = requests w @ [ReqPut k]"
    and b: "map_of (bucket w1) = (map_of (bucket w))(k \<mapsto> (t, []))"
    by blast
  from Cons.prems have "\<forall>k \<in> set ks. k \<noteq> []" by simp
  from Cons.IH[OF u this] obtain w' where
    q: "put_objects ks w1 = Some (Inr (), w')" and u': "store w' = Up"
    and r': "requests w' = requests w1 @ map ReqPut ks"
    and b': "\<forall>k. k \<notin> set ks \<longrightarrow> map_of (bucket w') k = map_of (bucket w1) k"
    by blast
  have "put_objects (k # ks) w = Some (Inr (), w')" using p q by (simp add: then_do_def)
  moreover have "requests w' = requests w @ map ReqPut (k # ks)" using r r' by simp
  moreover have "\<forall>k'. k' \<notin> set (k # ks) \<longrightarrow> map_of (bucket w') k' = map_of (bucket w) k'"
    using b b' by simp
  ultimately show ?case using u' by blast
qed

lemma put_up:
  assumes "valid_path pv fp" "\<not> endswith_slash (prefix pv @ fp)" "prefix pv @ fp \<noteq> []"
    and "store w = Up"
  shows "\<exists>t w'. put pv fp c w = Some (Inr (), w')
           \<and> map_of (bucket w') (prefix pv @ fp) = Some (t, c)
           \<and> requests w' = requests w @ ReqPut (prefix pv @ fp)
                 # map ReqPut (rev (folder_keys [] (butlast (split_slash (prefix pv @ fp)))))"
proof -
  let ?key = "prefix pv @ fp"
  let ?ks = "rev (folder_keys [] (butlast (split_slash ?key)))"
  from remote_put_up[OF assms(3,4), of c] obtain t w1 where
    p: "remote_put ?key c w = (Inr (), w1)" and u: "store w1 = Up"
    and r: "requests w1 = requests w @ [ReqPut ?key]"
    and b: "map_of (bucket w1) = (map_of (bucket w))(?key \<mapsto> (t, c))"
    by blast
  have sl: "\<forall>k \<in> set ?ks. endswith_slash k" using folder_keys_slash by auto
  then have ne: "\<forall>k \<in> set ?ks. k \<noteq> []" by (auto simp: endswith_slash_def)
  from sl assms(2) have nk: "?key \<notin> set ?ks" by blast
  from put_objects_up[OF u ne] obtain w' where
    q: "put_objects ?ks w1 = Some (Inr (), w')"
    and r': "requests w' = requests w1 @ map ReqPut ?ks"
    and b': "\<forall>k. k \<notin> set ?ks \<longrightarrow> map_of (bucket w') k = map_of (bucket w1) k"
    by blast
  have "put pv fp c w = Some (Inr (), w')"
    using assms(1,2) p q
    by (simp add: put_def checkpath_def then_do_def Let_def put_file_remote_def except_ClientError_def)
  moreover have "map_of (bucket w') ?key = Some (t, c)" using b b' nk by simp
  moreover have "requests w' = requests w @ ReqPut ?key # map ReqPut ?ks" using r r' by simp
  ultimately show ?thesis by blast
qed

section \<open>The handlers\<close>

lemma except_ClientError_result:
  "except_ClientError m = Some (r, w') \<Longrightarrow> r \<noteq> Inl ClientError"
  by (auto simp: except_ClientError_def split: option.splits sum.splits prod.splits if_splits)

lemma delete_contents_file:
  "\<not> endswith_slash (prefix pv @ fp) \<Longrightarrow> delete_contents pv fp w = Some (Inr (), w)"
  by (simp add: delete_contents_def)

lemma delete_file_path:
  assumes "valid_path pv fp" "\<not> endswith_slash (prefix pv @ fp)"
  shows "delete pv (Some fp) w = delete_object (prefix pv @ fp) w"
  using assms by (simp add: delete_def delete_contents_def checkpath_def then_do_def Let_def)

lemma delete_file_is_delete:
  "\<not> endswith_slash (prefix pv @ f) \<Longrightarrow> delete_file pv f w = delete pv (Some f) w"
  by (simp add: delete_file_def delete_def delete_contents_def then_do_def Let_def
           split: option.splits sum.splits prod.splits)

lemma remote_delete_frame:
  "remote_delete k w = (r, w') \<Longrightarrow> cache_data w' = cache_data w \<and> disk w' = disk w"
  unfolding remote_delete_def Let_def sent_def
  by (auto split: if_splits option.splits)

lemma remote_delete_sent:
  "k \<noteq> [] \<Longrightarrow> remote_delete k w = (r, w') \<Longrightarrow> requests w' = requests w @ [ReqDelete k]"
  unfolding remote_delete_def Let_def sent_def
  by (auto split: if_splits option.splits)

lemma remote_delete_up:
  "k \<noteq> [] \<Longrightarrow> store w = Up \<Longrightarrow> remote_delete k w = (r, w') \<Longrightarrow>
   r = Inr () \<and> map_of (bucket w') k = None"
  unfolding remote_delete_def Let_def sent_def store_failure_def
  by (auto simp: map_of_filter_key)

lemma remote_delete_empty:
  "remote_delete [] w = (Inl ParamValidationError, w)"
  by (simp add: remote_delete_def)

lemma get_fd_rejects:
  "\<not> valid_path pv fp \<or> endswith_slash (prefix pv @ fp) \<Longrightarrow>
   get_fd pv fp t w = Some (Inl NotFoundException, w)"
  by (auto simp: get_fd_def checkpath_def then_do_def Let_def)

lemma get_fd_no_ClientError:
  assumes "get_fd pv fp t w = Some (r, w')"
  shows "r \<noteq> Inl ClientError"
proof (cases "\<not> valid_path pv fp \<or> endswith_slash (prefix pv @ fp)")
  case True
  from get_fd_rejects[OF this, of t w] assms show ?thesis by simp
next
  case False
  with assms obtain m where "except_ClientError m = Some (r, w')"
    by (simp add: get_fd_def checkpath_def then_do_def Let_def)
  then show ?thesis by (rule except_ClientError_result)
qed

lemma put_no_ClientError:
  assumes "put pv fp c w = Some (r, w')"
  shows "r \<noteq> Inl ClientError"
proof (cases "valid_path pv fp \<and> \<not> endswith_slash (prefix pv @ fp)")
  case True
  with assms have "put_file_remote (prefix pv @ fp) c w = Some (r, w')"
    by (simp add: put_def checkpath_def then_do_def Let_def)
  then show ?thesis unfolding put_file_remote_def by (rule except_ClientError_result)
next
  case False
  with assms show ?thesis
    by (auto simp: put_def checkpath_def then_do_def Let_def split: if_splits)
qed

lemma get_last_modification_time_no_ClientError:
  assumes "get_last_modification_time pv fp w = Some (r, w')"
  shows "r \<noteq> Inl ClientError"
proof (cases "valid_path pv fp \<and> \<not> endswith_slash (prefix pv @ fp)")
  case True
  with assms have "except_ClientError (Some (remote_head (prefix pv @ fp) w)) = Some (r, w')"
    by (simp add: get_last_modification_time_def checkpath_def then_do_def Let_def)
  then show ?thesis by (rule except_ClientError_result)
next
  case False
  with assms show ?thesis
    by (auto simp: get_last_modification_time_def checkpath_def then_do_def Let_def split: if_splits)
qed

text \<open>
  An error response: the store rejects the request, or it answers and the key is not
  there.
\<close>

lemma remote_head_error:
  assumes "k \<noteq> []" "store w = Rejecting \<or> (store w = Up \<and> map_of (bucket w) k = None)"
  shows "remote_head k w = (Inl ClientError, sent (ReqHead k) w)"
  using assms by (auto simp: remote_head_def Let_def store_failure_def)

lemma remote_get_error:
  assumes "k \<noteq> []" "store w = Rejecting \<or> (store w = Up \<and> map_of (bucket w) k = None)"
  shows "remote_get k w = (Inl ClientError, sent (ReqGet k) w)"
  using assms by (auto simp: remote_get_def Let_def store_failure_def)

lemma remote_put_rejected:
  assumes "k \<noteq> []" "store w = Rejecting"
  shows "remote_put k c w = (Inl ClientError, sent (ReqPut k) w)"
  using assms by (auto simp: remote_put_def Let_def store_failure_def)

lemma remote_delete_rejected:
  assumes "k \<noteq> []" "store w = Rejecting"
  shows "remote_delete k w = (Inl ClientError, sent (ReqDelete k) w)"
  using assms by (auto simp: remote_delete_def Let_def store_failure_def)
section \<open>Cascade invalidation\<close>

text \<open>
  C1. Claim: invalidating \<^verbatim>\<open>a/b/c.txt\<close> while the markers \<^verbatim>\<open>a/b/\<close> and \<^verbatim>\<open>a/\<close> exist
  removes the three entries, deletes the file on disk, and removes a directory on disk
  only when it is empty. The code at that input: with \<^verbatim>\<open>c.txt\<close> the only file, the
  file is unlinked, the directory \<^verbatim>\<open>cache/a/b/\<close> is then empty and \<^verbatim>\<open>os.unlink\<close>
  is called on it, which raises; with a second file in the directory the cascade
  reaches the superclass with the path stripped of its slash and raises KeyError.
  Either way the call raises and the three entries are all still cached.
\<close>

theorem invalidate_cascade_raises:
  "map_option keys one_file_tree = Some [''a/b/c.txt'', ''a/b/'', ''a/'']
   \<and> observe (Option.bind one_file_tree (invalidate ''a/b/c.txt''))
       = Some (Inl OSError, [''a/b/c.txt'', ''a/b/'', ''a/''],
               [(False, [''cache'']), (False, [''cache'', ''a'']), (False, [''cache'', ''a'', ''b''])])
   \<and> observe (Option.bind two_file_tree (invalidate ''a/b/c.txt''))
       = Some (Inl KeyError, [''a/b/d.txt'', ''a/b/c.txt'', ''a/b/'', ''a/''],
               [(False, [''cache'']), (False, [''cache'', ''a'']), (False, [''cache'', ''a'', ''b'']),
                (False, [''cache'', ''a'', ''b'', ''d.txt''])])"
  by code_simp

section \<open>Orphan invalidation\<close>

text \<open>
  C8. Claim: invalidating a path that has no entry invalidates the parent instead, so
  that a cached ancestor marker is removed. The code at \<^verbatim>\<open>a/b/new.txt\<close>, which is
  not cached while the markers \<^verbatim>\<open>a/b/\<close> and \<^verbatim>\<open>a/\<close> are: the call does go to the parent
  \<^verbatim>\<open>a/b/\<close>, whose removal raises KeyError, and both markers are still cached.
\<close>

theorem invalidate_orphan_raises:
  "observe (Option.bind two_file_tree (invalidate ''a/b/new.txt''))
     = Some (Inl KeyError, [''a/b/c.txt'', ''a/b/d.txt'', ''a/b/'', ''a/''],
             [(False, [''cache'']), (False, [''cache'', ''a'']), (False, [''cache'', ''a'', ''b'']),
              (False, [''cache'', ''a'', ''b'', ''c.txt'']), (False, [''cache'', ''a'', ''b'', ''d.txt''])])"
  by code_simp

section \<open>Stale lookups\<close>



section \<open>Touch propagation\<close>

text \<open>
  C6. Claim: every lookup and every insertion for a path marks every cached ancestor
  directory marker as just accessed. \<^verbatim>\<open>S3CacheManager.get\<close> reads the entry only under
  the guard \<^verbatim>\<open>if path in self._cache_data\<close>: a lookup of a path that is not cached
  returns absent and touches nothing, although ancestor markers of the path are cached.
  In the first run \<^verbatim>\<open>a/b/other.txt\<close> is looked up while \<^verbatim>\<open>a/b/\<close> and \<^verbatim>\<open>a/\<close> are cached:
  the order of the keys is unchanged and \<^verbatim>\<open>z.txt\<close> is still the most recently used key.
  Nor does the loop over the parents look for the root marker, whose key is empty: in
  the second run \<^verbatim>\<open>f\<close> is stored again while the root marker and \<^verbatim>\<open>z\<close> are cached, and
  the root marker is the least recently used key afterwards.
\<close>

theorem lookup_of_absent_path_touches_nothing:
  "map_option (\<lambda>(r, s). (r, keys s)) (get ''a/b/other.txt'' 0 sample_cache)
     = Some (Inr None, [''a/b/c.txt'', ''a/b/'', ''a/'', ''z.txt''])
   \<and> keys sample_cache = [''a/b/c.txt'', ''a/b/'', ''a/'', ''z.txt'']
   \<and> ancestor_markers ''a/b/other.txt'' = [''a/b/'', ''a/'', []]
   \<and> map_option keys
        (run_insertions [PutFile ''f'' 1 ''x'', PutFolder [] 2, PutFile ''z'' 1 ''zz''] small_manager)
     = Some [''f'', [], ''z'']
   \<and> map_option (\<lambda>(r, s). (r, keys s))
        (Option.bind
           (run_insertions [PutFile ''f'' 1 ''x'', PutFolder [] 2, PutFile ''z'' 1 ''zz''] small_manager)
           (put_file ''f'' 3 ''y''))
     = Some (Inr (), [[], ''z'', ''f''])
   \<and> ancestor_markers ''f'' = [[]]"
  by code_simp

text \<open>
  C6, amended. A lookup of a path that has no entry returns absent and leaves the cache
  as it is. For a path that is not empty, does not start with a slash and has no two
  slashes in a row, a lookup of the path when it is cached returns its value, and an
  insertion that returns leaves the cache, with the path, then every cached ancestor
  marker other than the root marker, from the immediate parent upwards, then the key
  \<^verbatim>\<open>/\<close> if it is cached, at the most recently used end, behind all other keys.
\<close>

theorem touch_propagation:
  "(\<not> contains path s \<longrightarrow> get path t s = Some (Inr None, s))
   \<and> (path \<noteq> [] \<and> \<not> startswith_slash path \<and> \<not> adjacent_slashes path \<longrightarrow>
        (\<forall>v. map_of (cache_data s) path = Some v \<longrightarrow>
           (\<exists>s'. getitem path s = Some (Inr v, s')
              \<and> keys s' = filter (\<lambda>k. k \<notin> set (marked_keys path (keys s))) (keys s)
                           @ marked_keys path (keys s)))
        \<and> (\<forall>val s'. setitem path val s = Some (Inr (), s') \<longrightarrow>
             keys s' = filter (\<lambda>k. k \<notin> set (marked_keys path (keys s'))) (keys s')
                       @ marked_keys path (keys s')))"
proof (intro conjI allI impI)
  assume "\<not> contains path s"
  then show "get path t s = Some (Inr None, s)" by (rule get_absent)
next
  fix v
  assume p: "path \<noteq> [] \<and> \<not> startswith_slash path \<and> \<not> adjacent_slashes path"
    and v: "map_of (cache_data s) path = Some v"
  from p have rel: "\<not> startswith_slash path" by simp
  from p have mk: "\<And>ks. recent_keys path ks = marked_keys path ks"
    by (simp add: recent_keys_marked)
  have g: "getitem path s = Some (Inr v, touch_all path s)" using v rel by (rule getitem_relative)
  from v have "path \<in> set (keys s)" by (rule map_of_keys)
  with rel have "keys (touch_all path s)
                = filter (\<lambda>k. k \<notin> set (recent_keys path (keys s))) (keys s) @ recent_keys path (keys s)"
    by (rule keys_touch_all)
  then have "keys (touch_all path s)
                = filter (\<lambda>k. k \<notin> set (marked_keys path (keys s))) (keys s) @ marked_keys path (keys s)"
    by (simp only: mk)
  with g show "\<exists>s'. getitem path s = Some (Inr v, s')
              \<and> keys s' = filter (\<lambda>k. k \<notin> set (marked_keys path (keys s))) (keys s)
                           @ marked_keys path (keys s)"
    by blast
next
  fix val s'
  assume p: "path \<noteq> [] \<and> \<not> startswith_slash path \<and> \<not> adjacent_slashes path"
    and "setitem path val s = Some (Inr (), s')"
  from p have rel: "\<not> startswith_slash path" by simp
  from p have mk: "\<And>ks. recent_keys path ks = marked_keys path ks"
    by (simp add: recent_keys_marked)
  from rel \<open>setitem path val s = Some (Inr (), s')\<close>
  obtain s1 where c: "cache_setitem path val s = Some (Inr (), s1)"
    and s': "s' = touch_all path s1" using setitem_relative by blast
  have in1: "path \<in> set (keys s1)" using c by (rule cache_setitem_key)
  let ?R = "recent_keys path (keys s1)"
  have k: "keys s' = filter (\<lambda>k. k \<notin> set ?R) (keys s1) @ ?R"
    unfolding s' using rel in1 by (rule keys_touch_all)
  have R: "recent_keys path (keys s') = ?R"
    unfolding s' by (rule recent_keys_cong) (rule set_keys_touch_all)
  have "filter (\<lambda>k. k \<notin> set ?R) (keys s') = filter (\<lambda>k. k \<notin> set ?R) (keys s1)"
    unfolding k by simp
  then have "keys s' = filter (\<lambda>k. k \<notin> set (recent_keys path (keys s'))) (keys s')
                      @ recent_keys path (keys s')"
    unfolding R using k by simp
  then show "keys s' = filter (\<lambda>k. k \<notin> set (marked_keys path (keys s'))) (keys s')
                       @ marked_keys path (keys s')"
    by (simp only: mk)
qed

text \<open>
  The amended claim at \<^verbatim>\<open>a/b/c.txt\<close>, looked up and stored again with a new timestamp,
  and at \<^verbatim>\<open>a/b/other.txt\<close>, which is not cached.
\<close>

theorem touch_propagation_witness:
  "get ''a/b/other.txt'' 0 sample_cache = Some (Inr None, sample_cache)
   \<and> keys sample_cache = [''a/b/c.txt'', ''a/b/'', ''a/'', ''z.txt'']
   \<and> (\<exists>s'. getitem ''a/b/c.txt'' sample_cache = Some (Inr (1, ''cache/a/b/c.txt'', 3), s')
          \<and> keys s' = [''z.txt'', ''a/b/c.txt'', ''a/b/'', ''a/''])
   \<and> (\<exists>s'. setitem ''a/b/c.txt'' (2, ''cache/a/b/c.txt'', 3) sample_cache = Some (Inr (), s')
          \<and> keys s' = [''z.txt'', ''a/b/c.txt'', ''a/b/'', ''a/'']
          \<and> keys s' = filter (\<lambda>k. k \<notin> set (marked_keys ''a/b/c.txt'' (keys s'))) (keys s')
                        @ marked_keys ''a/b/c.txt'' (keys s'))"
proof -
  have h0: "\<not> contains ''a/b/other.txt'' sample_cache" by code_simp
  have h1: "map_of (cache_data sample_cache) ''a/b/c.txt'' = Some (1, ''cache/a/b/c.txt'', 3)"
    by code_simp
  have h2: "''a/b/c.txt'' \<noteq> [] \<and> \<not> startswith_slash ''a/b/c.txt'' \<and> \<not> adjacent_slashes ''a/b/c.txt''"
    by code_simp
  have k0: "keys sample_cache = [''a/b/c.txt'', ''a/b/'', ''a/'', ''z.txt'']" by code_simp
  have k: "filter (\<lambda>k. k \<notin> set (marked_keys ''a/b/c.txt'' (keys sample_cache))) (keys sample_cache)
             @ marked_keys ''a/b/c.txt'' (keys sample_cache)
           = [''z.txt'', ''a/b/c.txt'', ''a/b/'', ''a/'']"
    by code_simp
  have "map_option (\<lambda>(r, s). (r, keys s)) (setitem ''a/b/c.txt'' (2, ''cache/a/b/c.txt'', 3) sample_cache)
          = Some (Inr (), [''z.txt'', ''a/b/c.txt'', ''a/b/'', ''a/''])"
    by code_simp
  then obtain s' where s': "setitem ''a/b/c.txt'' (2, ''cache/a/b/c.txt'', 3) sample_cache = Some (Inr (), s')"
    and ks: "keys s' = [''z.txt'', ''a/b/c.txt'', ''a/b/'', ''a/'']"
    by auto
  from touch_propagation[of "''a/b/other.txt''" sample_cache 0] h0
  have a: "get ''a/b/other.txt'' 0 sample_cache = Some (Inr None, sample_cache)" by blast
  note t = touch_propagation[of "''a/b/c.txt''" sample_cache 0]
  from t h1 h2 obtain s1 where g: "getitem ''a/b/c.txt'' sample_cache
     = Some (Inr (1, ''cache/a/b/c.txt'', 3), s1)"
    and gk: "keys s1
               = filter (\<lambda>k. k \<notin> set (marked_keys ''a/b/c.txt'' (keys sample_cache))) (keys sample_cache)
                 @ marked_keys ''a/b/c.txt'' (keys sample_cache)"
    by blast
  from t h2 s' have sk: "keys s' = filter (\<lambda>k. k \<notin> set (marked_keys ''a/b/c.txt'' (keys s'))) (keys s')
                          @ marked_keys ''a/b/c.txt'' (keys s')"
    by blast
  from a k0 g gk[unfolded k] s' ks sk show ?thesis by blast
qed
section \<open>The capacity bound\<close>

text \<open>
  C7. For every sequence of insertions into a cache created with a maximum that is not
  negative, the total weight of the entries is at most the maximum after each operation
  that completes, whether it returned or raised. A file is stored with the length of its
  content as its weight and a marker with weight zero, so that markers add nothing to
  the total. Every prefix of a sequence is a sequence, which covers the states in between.
\<close>

theorem capacity_bound:
  assumes "0 \<le> max_size" and "init_manager cpath max_size d = Inr s0"
    and "run_insertions ops s0 = Some s"
  shows "total_weight s \<le> max_size"
proof -
  from assms(2,1) have "cache_inv s0 \<and> maxsize s0 = max_size" by (rule init_manager_inv)
  with run_insertions_inv[OF assms(3)] have "cache_inv s" and "maxsize s = max_size" by simp_all
  then show ?thesis by (simp add: cache_inv_def)
qed

text \<open>
  The theorem on a cache of maximum size 4: a file of three bytes, a marker, and a file
  of two bytes, which evicts the first file.
\<close>

theorem capacity_bound_witness:
  "\<exists>s. init_manager ''cache'' 4 [] = Inr small_manager
       \<and> run_insertions [PutFile ''a'' 1 ''xxx'', PutFolder ''d/'' 2, PutFile ''b'' 3 ''yy''] small_manager
           = Some s
       \<and> keys s = [''d/'', ''b''] \<and> total_weight s \<le> 4"
proof -
  have i: "init_manager ''cache'' 4 [] = Inr small_manager" by code_simp
  have "map_option keys
          (run_insertions [PutFile ''a'' 1 ''xxx'', PutFolder ''d/'' 2, PutFile ''b'' 3 ''yy''] small_manager)
        = Some [''d/'', ''b'']"
    by code_simp
  then obtain s where r: "run_insertions [PutFile ''a'' 1 ''xxx'', PutFolder ''d/'' 2, PutFile ''b'' 3 ''yy'']
                            small_manager = Some s"
    and k: "keys s = [''d/'', ''b'']" by auto
  have "(0::int) \<le> 4" by simp
  from capacity_bound[OF this i r] have "total_weight s \<le> 4" .
  with i r k show ?thesis by blast
qed

section \<open>Markers and eviction\<close>



section \<open>Reads\<close>

text \<open>
  C2. Claim: a read with an explicit timestamp returns the cached content exactly when an
  entry with a timestamp at least as late exists, and otherwise fetches once, stores the
  result under the modification time of the remote object and returns the newly cached
  content. The code at the object \<^verbatim>\<open>f.txt\<close>, last modified at 5, read with timestamp 10
  into an empty cache: the object is fetched and stored under 5, and the second lookup,
  made with the needed time 10 again, reports absent, so that \<^verbatim>\<open>open\<close> is given \<^verbatim>\<open>None\<close>
  and raises TypeError. Read with timestamp 5 the same object is returned.
\<close>

theorem read_with_later_timestamp_raises:
  "outcome (Option.bind (fresh_world 100 [(''f.txt'', 5, ''hello'')] [])
              (get_fd root_provider ''f.txt'' (Some 10)))
     = Some (Inl TypeError, [(''f.txt'', 5)], [''f.txt''], [ReqGet ''f.txt'', ReqHead ''f.txt''])
   \<and> outcome (Option.bind (fresh_world 100 [(''f.txt'', 5, ''hello'')] [])
                (get_fd root_provider ''f.txt'' (Some 5)))
     = Some (Inr ''hello'', [(''f.txt'', 5)], [''f.txt''], [ReqGet ''f.txt'', ReqHead ''f.txt''])"
  by code_simp

section \<open>The whole-subtree round trip\<close>

text \<open>
  C3. Claim: after a folder was copied by reconciliation, which registers its markers
  under the time at which the copy started, a second copy of the folder takes the fast
  path and sends no request to list or to get. The code at the folder \<^verbatim>\<open>d/\<close> with the
  one object \<^verbatim>\<open>d/f\<close> and a clock that reads 10, 11, 12, 13: the first copy stores the
  marker \<^verbatim>\<open>d/\<close> under 11; the second copy asks the cache for the marker with its own
  reading 12 of the clock, finds it stale and lists the folder again.
\<close>

theorem second_copy_lists_again:
  "outcome (Option.bind (fresh_world 100 [(''d/f'', 1, ''x'')] [10, 1, 1, 1])
              (copy_from root_provider (Some ''d/'') ''out''))
     = Some (Inr (), [(''d/f'', 1), (''d/'', 11)], [''d/f''],
             [ReqHead ''d/'', ReqList ''d/'', ReqGet ''d/f'', ReqHead ''d/f''])
   \<and> Option.bind (fresh_world 100 [(''d/f'', 1, ''x'')] [10, 1, 1, 1])
        (\<lambda>w. and_then (copy_from root_provider (Some ''d/'') ''out'' w)
           (\<lambda>w1. requests_of w1 (copy_from root_provider (Some ''d/'') ''out'' w1)))
     = Some [ReqHead ''d/'', ReqList ''d/'']"
  by code_simp

section \<open>The order of deletion and invalidation\<close>

text \<open>
  C5. Claim: a delete, and a write, is applied to the store first, and the cache path is
  invalidated only after that. The code of \<^verbatim>\<open>delete\<close> calls \<^verbatim>\<open>self._cache.invalidate\<close>
  before \<^verbatim>\<open>Object(fullpath).delete()\<close>, and \<^verbatim>\<open>put\<close> calls no invalidation at all. In the
  first run the store rejects the deletion of the cached \<^verbatim>\<open>f.txt\<close>: the delete fails,
  the object is still in the bucket, and the cache entry is gone. In the second run
  \<^verbatim>\<open>f.txt\<close> is written after it was cached, and a read that accepts the timestamp of the
  entry is served the old content from the cache.
\<close>

theorem delete_invalidates_before_remote:
  "outcome (Option.bind (fresh_world 100 [(''f.txt'', 5, ''hello'')] [])
              (\<lambda>w. and_then (get_fd root_provider ''f.txt'' None w)
                 (\<lambda>w1. delete root_provider (Some ''f.txt'') (w1\<lparr>store := Rejecting\<rparr>))))
     = Some (Inl NotFoundException, [], [''f.txt''],
             [ReqHead ''f.txt'', ReqGet ''f.txt'', ReqHead ''f.txt'', ReqDelete ''f.txt''])
   \<and> outcome (Option.bind (fresh_world 100 [(''f.txt'', 5, ''hello'')] [])
                (\<lambda>w. and_then (get_fd root_provider ''f.txt'' None w)
                   (\<lambda>w1. and_then (put root_provider ''f.txt'' ''new'' w1)
                      (\<lambda>w2. get_fd root_provider ''f.txt'' (Some 5) w2))))
     = Some (Inr ''hello'', [(''f.txt'', 5)], [''f.txt''],
             [ReqHead ''f.txt'', ReqGet ''f.txt'', ReqHead ''f.txt'', ReqPut ''f.txt''])"
  by code_simp

text \<open>
  C5, amended. Every delete, of a file or of a folder, invalidates the cache path of its
  key first and deletes the key from the store after that. \<open>w0\<close> is the world in which
  the key itself is dealt with: for a path that is not a folder the world of the call,
  for a folder the world after its files were listed and deleted, each by a delete of
  its own, to which the same applies. When the invalidation raises, the delete raises
  with it, and nothing was sent for the key and the bucket is as it was. When the
  invalidation returns, the delete is the deletion from the store, run on the cache as
  the invalidation left it and changing nothing of it, whether the store accepts the
  deletion or not: the one request sent is the deletion of the key, after which a store
  that answers no longer holds the key; for the empty key the client raises before it
  sends. A write with a key that is not empty, to a store that answers, returns with the
  content under the key in the bucket, sends the upload first and then the writes of the
  folder keys, and no write changes the cache or the disk.
\<close>

theorem delete_invalidates_then_deletes:
  "(valid_path pv fp \<and> delete_contents pv fp w = Some (Inr (), w0) \<longrightarrow>
      (\<forall>e w1. invalidate (prefix pv @ fp) w0 = Some (Inl e, w1) \<longrightarrow>
         delete pv (Some fp) w = Some (Inl (if e = ClientError then NotFoundException else e), w1)
         \<and> requests w1 = requests w0 \<and> bucket w1 = bucket w0)
    \<and> (\<forall>w1. invalidate (prefix pv @ fp) w0 = Some (Inr (), w1) \<longrightarrow>
         delete pv (Some fp) w = except_ClientError (Some (remote_delete (prefix pv @ fp) w1))
         \<and> (\<exists>r w'. delete pv (Some fp) w = Some (r, w')
               \<and> cache_data w' = cache_data w1 \<and> disk w' = disk w1
               \<and> (prefix pv @ fp \<noteq> [] \<longrightarrow> requests w' = requests w0 @ [ReqDelete (prefix pv @ fp)])
               \<and> (prefix pv @ fp \<noteq> [] \<and> store w0 = Up \<longrightarrow>
                    r = Inr () \<and> map_of (bucket w') (prefix pv @ fp) = None)
               \<and> (prefix pv @ fp = [] \<longrightarrow>
                    r = Inl ParamValidationError \<and> requests w' = requests w0 \<and> bucket w' = bucket w0))))
   \<and> (\<not> endswith_slash (prefix pv @ fp) \<longrightarrow>
        delete_contents pv fp w = Some (Inr (), w) \<and> delete_file pv fp w = delete pv (Some fp) w)
   \<and> (valid_path pv fp \<and> \<not> endswith_slash (prefix pv @ fp) \<and> prefix pv @ fp \<noteq> [] \<and> store w = Up \<longrightarrow>
        (\<exists>t w'. put pv fp c w = Some (Inr (), w')
           \<and> map_of (bucket w') (prefix pv @ fp) = Some (t, c)
           \<and> requests w' = requests w @ ReqPut (prefix pv @ fp)
                 # map ReqPut (rev (folder_keys [] (butlast (split_slash (prefix pv @ fp)))))))
   \<and> (\<forall>r w'. put pv fp c w = Some (r, w') \<longrightarrow> cache_data w' = cache_data w \<and> disk w' = disk w)"
proof (intro conjI allI impI)
  fix e w1
  assume a: "valid_path pv fp \<and> delete_contents pv fp w = Some (Inr (), w0)"
    and i: "invalidate (prefix pv @ fp) w0 = Some (Inl e, w1)"
  from a have d: "delete pv (Some fp) w = delete_object (prefix pv @ fp) w0"
    by (simp add: delete_def checkpath_def then_do_def Let_def)
  show "delete pv (Some fp) w = Some (Inl (if e = ClientError then NotFoundException else e), w1)"
    unfolding d using i by (simp add: delete_object_def then_do_def except_ClientError_def)
  from invalidate_same_store[OF i] show "requests w1 = requests w0" and "bucket w1 = bucket w0"
    by (simp_all add: same_store_def)
next
  fix w1
  assume a: "valid_path pv fp \<and> delete_contents pv fp w = Some (Inr (), w0)"
    and i: "invalidate (prefix pv @ fp) w0 = Some (Inr (), w1)"
  let ?key = "prefix pv @ fp"
  from a have d: "delete pv (Some fp) w = delete_object ?key w0"
    by (simp add: delete_def checkpath_def then_do_def Let_def)
  show e: "delete pv (Some fp) w = except_ClientError (Some (remote_delete ?key w1))"
    unfolding d using i by (simp add: delete_object_def then_do_def)
  obtain r1 w' where rd: "remote_delete ?key w1 = (r1, w')" by (cases "remote_delete ?key w1")
  from invalidate_same_store[OF i] have req: "requests w1 = requests w0"
    and st: "store w1 = store w0" and bu: "bucket w1 = bucket w0"
    by (simp_all add: same_store_def)
  let ?r = "case r1 of Inl x \<Rightarrow> Inl (if x = ClientError then NotFoundException else x) | Inr u \<Rightarrow> Inr u"
  have dr: "delete pv (Some fp) w = Some (?r, w')"
    unfolding e rd by (cases r1) (simp_all add: except_ClientError_def)
  have "cache_data w' = cache_data w1 \<and> disk w' = disk w1" using rd by (rule remote_delete_frame)
  moreover have "?key \<noteq> [] \<longrightarrow> requests w' = requests w0 @ [ReqDelete ?key]"
    using remote_delete_sent[OF _ rd] req by simp
  moreover have "?key \<noteq> [] \<and> store w0 = Up \<longrightarrow> ?r = Inr () \<and> map_of (bucket w') ?key = None"
    using remote_delete_up[OF _ _ rd] st by auto
  moreover have "?key = [] \<longrightarrow> ?r = Inl ParamValidationError \<and> requests w' = requests w0 \<and> bucket w' = bucket w0"
    using rd req bu by (auto simp: remote_delete_empty)
  ultimately show "\<exists>r w'. delete pv (Some fp) w = Some (r, w')
               \<and> cache_data w' = cache_data w1 \<and> disk w' = disk w1
               \<and> (?key \<noteq> [] \<longrightarrow> requests w' = requests w0 @ [ReqDelete ?key])
               \<and> (?key \<noteq> [] \<and> store w0 = Up \<longrightarrow> r = Inr () \<and> map_of (bucket w') ?key = None)
               \<and> (?key = [] \<longrightarrow>
                    r = Inl ParamValidationError \<and> requests w' = requests w0 \<and> bucket w' = bucket w0)"
    using dr by blast
next
  assume "\<not> endswith_slash (prefix pv @ fp)"
  then show "delete_contents pv fp w = Some (Inr (), w)" and "delete_file pv fp w = delete pv (Some fp) w"
    by (rule delete_contents_file, rule delete_file_is_delete)
next
  assume "valid_path pv fp \<and> \<not> endswith_slash (prefix pv @ fp) \<and> prefix pv @ fp \<noteq> [] \<and> store w = Up"
  then show "\<exists>t w'. put pv fp c w = Some (Inr (), w')
           \<and> map_of (bucket w') (prefix pv @ fp) = Some (t, c)
           \<and> requests w' = requests w @ ReqPut (prefix pv @ fp)
                 # map ReqPut (rev (folder_keys [] (butlast (split_slash (prefix pv @ fp)))))"
    using put_up by blast
next
  fix r w' assume "put pv fp c w = Some (r, w')"
  from put_frame[OF this] show "cache_data w' = cache_data w" and "disk w' = disk w" by simp_all
qed

text \<open>
  The amended claim where the invalidation returns (\<^verbatim>\<open>f.txt\<close>, cached without markers),
  where it raises (\<^verbatim>\<open>d/f\<close>, cached under the marker \<^verbatim>\<open>d/\<close>), for the folder \<^verbatim>\<open>d/\<close>
  with two files, and for a write.
\<close>

theorem delete_invalidates_then_deletes_witness:
  "\<exists>w w1 w' v v1 u0 u1 r3 u' t w2.
      cached_world = Some w \<and> invalidate ''f.txt'' w = Some (Inr (), w1)
      \<and> delete root_provider (Some ''f.txt'') w = Some (Inr (), w')
      \<and> requests w' = requests w @ [ReqDelete ''f.txt''] \<and> cache_data w' = cache_data w1
      \<and> map_of (bucket w') ''f.txt'' = None
      \<and> copied_world = Some v \<and> invalidate ''d/f'' v = Some (Inl OSError, v1)
      \<and> delete root_provider (Some ''d/f'') v = Some (Inl OSError, v1)
      \<and> requests v1 = requests v
      \<and> delete_contents root_provider ''d/'' folder_world = Some (Inr (), u0)
      \<and> requests u0 = [ReqList ''d/'', ReqDelete ''d/f'', ReqDelete ''d/g'']
      \<and> invalidate ''d/'' u0 = Some (Inr (), u1)
      \<and> delete root_provider (Some ''d/'') folder_world = Some (r3, u')
      \<and> requests u' = [ReqList ''d/'', ReqDelete ''d/f'', ReqDelete ''d/g'', ReqDelete ''d/'']
      \<and> put root_provider ''f.txt'' ''new'' w = Some (Inr (), w2)
      \<and> map_of (bucket w2) ''f.txt'' = Some (t, ''new'') \<and> cache_data w2 = cache_data w"
proof -
  have pre: "prefix root_provider = []" by code_simp
  have val1: "valid_path root_provider ''f.txt''" by code_simp
  have val2: "valid_path root_provider ''d/f''" by code_simp
  have val3: "valid_path root_provider ''d/''" by code_simp
  have ns1: "\<not> endswith_slash ''f.txt''" by code_simp
  have ns2: "\<not> endswith_slash ''d/f''" by code_simp
  have "map_option fst (Option.bind cached_world (invalidate ''f.txt'')) = Some (Inr ())"
    by code_simp
  then obtain w w1 where w: "cached_world = Some w"
    and i: "invalidate ''f.txt'' w = Some (Inr (), w1)"
    by (auto simp: bind_eq_Some_conv)
  have "map_option store cached_world = Some Up" by code_simp
  then have up: "store w = Up" unfolding w by simp
  have "map_option fst (Option.bind copied_world (invalidate ''d/f'')) = Some (Inl OSError)"
    by code_simp
  then obtain v v1 where v: "copied_world = Some v"
    and j: "invalidate ''d/f'' v = Some (Inl OSError, v1)"
    by (auto simp: bind_eq_Some_conv)
  have "map_option (\<lambda>(r, u0). (r, requests u0)) (delete_contents root_provider ''d/'' folder_world)
          = Some (Inr (), [ReqList ''d/'', ReqDelete ''d/f'', ReqDelete ''d/g''])"
    by code_simp
  then obtain u0 where c: "delete_contents root_provider ''d/'' folder_world = Some (Inr (), u0)"
    and cr: "requests u0 = [ReqList ''d/'', ReqDelete ''d/f'', ReqDelete ''d/g'']"
    by auto
  have "map_option fst (Option.bind (delete_contents root_provider ''d/'' folder_world)
                          (\<lambda>(r, u). invalidate ''d/'' u)) = Some (Inr ())"
    by code_simp
  with c obtain u1 where k: "invalidate ''d/'' u0 = Some (Inr (), u1)" by auto
  note t1 = delete_invalidates_then_deletes[of root_provider "''f.txt''" w w "''new''",
                                            unfolded pre append_Nil]
  note t2 = delete_invalidates_then_deletes[of root_provider "''d/f''" v v "[]",
                                            unfolded pre append_Nil]
  note t3 = delete_invalidates_then_deletes[of root_provider "''d/''" folder_world u0 "[]",
                                            unfolded pre append_Nil]
  from t1 ns1 have c1: "delete_contents root_provider ''f.txt'' w = Some (Inr (), w)" by blast
  from t2 ns2 have c2: "delete_contents root_provider ''d/f'' v = Some (Inr (), v)" by blast
  from t1[THEN conjunct1] val1 c1 i obtain r w' where
    d: "delete root_provider (Some ''f.txt'') w = Some (r, w')"
    and dc: "cache_data w' = cache_data w1"
    and dr: "''f.txt'' \<noteq> [] \<longrightarrow> requests w' = requests w @ [ReqDelete ''f.txt'']"
    and du: "''f.txt'' \<noteq> [] \<and> store w = Up \<longrightarrow> r = Inr () \<and> map_of (bucket w') ''f.txt'' = None"
    by blast
  from du up have r: "r = Inr ()" and db: "map_of (bucket w') ''f.txt'' = None" by simp_all
  from dr have dr': "requests w' = requests w @ [ReqDelete ''f.txt'']" by simp
  from t2[THEN conjunct1] val2 c2 j
  have e: "delete root_provider (Some ''d/f'') v = Some (Inl OSError, v1)"
    and er: "requests v1 = requests v" by auto
  from t3[THEN conjunct1] val3 c k obtain r3 u' where
    f: "delete root_provider (Some ''d/'') folder_world = Some (r3, u')"
    and fr: "''d/'' \<noteq> [] \<longrightarrow> requests u' = requests u0 @ [ReqDelete ''d/'']"
    by blast
  from fr cr have fr': "requests u' = [ReqList ''d/'', ReqDelete ''d/f'', ReqDelete ''d/g'', ReqDelete ''d/'']"
    by simp
  from t1[THEN conjunct2, THEN conjunct2, THEN conjunct1] val1 ns1 up obtain t w2 where
    p: "put root_provider ''f.txt'' ''new'' w = Some (Inr (), w2)"
    and pb: "map_of (bucket w2) ''f.txt'' = Some (t, ''new'')"
    by auto
  from t1[THEN conjunct2, THEN conjunct2, THEN conjunct2] p have pc: "cache_data w2 = cache_data w"
    by blast
  from w i d[unfolded r] dr' dc db v j e er c cr k f fr' p pb pc show ?thesis by blast
qed
section \<open>The errors that reach the caller\<close>

text \<open>
  C9. Claim: every public operation either succeeds or fails with NotFound, whatever the
  store does. The handlers of the code catch ClientError and nothing else, and \<^verbatim>\<open>list\<close>
  has no handler. In the runs, each on an empty cache before a store that holds
  \<^verbatim>\<open>f.txt\<close>: the store rejects the listing and ClientError reaches the caller of \<^verbatim>\<open>list\<close>,
  and the caller of the \<^verbatim>\<open>delete\<close> of a folder, which lists; the object of five bytes is
  read through a cache of maximum size 4 and the ValueError of the cache library reaches
  the caller of \<^verbatim>\<open>get_fd\<close>; the store cannot be reached and EndpointConnectionError
  reaches the caller of \<^verbatim>\<open>get_fd\<close>; and the \<^verbatim>\<open>delete\<close> and the \<^verbatim>\<open>put\<close> of the root path of a
  provider with the empty prefix are given the empty key, for which the client raises
  ParamValidationError.
\<close>

theorem other_errors_escape:
  "outcome (Option.bind (fresh_world 100 [(''f.txt'', 5, ''hello'')] [])
              (\<lambda>w. list_objects root_provider True True True (w\<lparr>store := Rejecting\<rparr>)))
     = Some (Inl ClientError, [], [''f.txt''], [ReqList []])
   \<and> outcome (Option.bind (fresh_world 100 [(''f.txt'', 5, ''hello'')] [])
              (\<lambda>w. delete root_provider (Some ''d/'') (w\<lparr>store := Rejecting\<rparr>)))
     = Some (Inl ClientError, [], [''f.txt''], [ReqList ''d/''])
   \<and> outcome (Option.bind (fresh_world 4 [(''f.txt'', 5, ''hello'')] [])
                (get_fd root_provider ''f.txt'' None))
     = Some (Inl ValueError, [], [''f.txt''], [ReqHead ''f.txt'', ReqGet ''f.txt'', ReqHead ''f.txt''])
   \<and> outcome (Option.bind (fresh_world 100 [(''f.txt'', 5, ''hello'')] [])
                (\<lambda>w. get_fd root_provider ''f.txt'' None (w\<lparr>store := Unreachable\<rparr>)))
     = Some (Inl EndpointConnectionError, [], [''f.txt''], [ReqHead ''f.txt''])
   \<and> outcome (Option.bind (fresh_world 100 [(''f.txt'', 5, ''hello'')] [])
                (delete root_provider None))
     = Some (Inl ParamValidationError, [], [''f.txt''], [])
   \<and> outcome (Option.bind (fresh_world 100 [(''f.txt'', 5, ''hello'')] [])
                (put root_provider [] ''abc''))
     = Some (Inl ParamValidationError, [], [''f.txt''], [])"
  by code_simp

text \<open>
  C9, amended. \<^verbatim>\<open>get_fd\<close>, \<^verbatim>\<open>put\<close> and \<^verbatim>\<open>get_last_modification_time\<close> fail with NotFound
  on a path that the check of paths rejects or whose key ends in a slash. For a key that
  is not empty, an error response of the store, which the client raises as ClientError,
  is turned into NotFound: \<^verbatim>\<open>put\<close> and the \<^verbatim>\<open>delete\<close> of a path that is not a folder, once
  its invalidation returned, fail with NotFound when the store rejects the request;
  \<^verbatim>\<open>get_last_modification_time\<close>, \<^verbatim>\<open>get_fd\<close> without a timestamp, and \<^verbatim>\<open>get_fd\<close> with a
  timestamp that the cache does not satisfy fail with NotFound when the store rejects the
  request or does not hold the key. No ClientError leaves any of the four. The handlers
  convert nothing else: when the store cannot be reached the four fail with
  EndpointConnectionError, and for the empty key \<^verbatim>\<open>put\<close>, \<^verbatim>\<open>get_last_modification_time\<close>
  and \<^verbatim>\<open>get_fd\<close> without a timestamp fail with ParamValidationError. \<^verbatim>\<open>list\<close> has no
  handler and fails with ClientError when the store rejects the request.
\<close>

theorem ClientError_becomes_NotFound:
  "(\<not> valid_path pv fp \<or> endswith_slash (prefix pv @ fp) \<longrightarrow>
       get_fd pv fp t w = Some (Inl NotFoundException, w)
     \<and> put pv fp c w = Some (Inl NotFoundException, w)
     \<and> get_last_modification_time pv fp w = Some (Inl NotFoundException, w))
   \<and> (valid_path pv fp \<and> \<not> endswith_slash (prefix pv @ fp) \<and> prefix pv @ fp \<noteq> [] \<longrightarrow>
        (store w = Rejecting \<longrightarrow>
           (\<exists>w'. put pv fp c w = Some (Inl NotFoundException, w'))
         \<and> (\<forall>w1. invalidate (prefix pv @ fp) w = Some (Inr (), w1) \<longrightarrow>
                (\<exists>w'. delete pv (Some fp) w = Some (Inl NotFoundException, w'))))
      \<and> (store w = Rejecting \<or> (store w = Up \<and> map_of (bucket w) (prefix pv @ fp) = None) \<longrightarrow>
           (\<exists>w'. get_last_modification_time pv fp w = Some (Inl NotFoundException, w'))
         \<and> (\<exists>w'. get_fd pv fp None w = Some (Inl NotFoundException, w'))
         \<and> (\<forall>ts w1. get (prefix pv @ fp) ts w = Some (Inr None, w1) \<longrightarrow>
                (\<exists>w'. get_fd pv fp (Some ts) w = Some (Inl NotFoundException, w')))))
   \<and> (\<forall>r w'. get_fd pv fp t w = Some (r, w') \<longrightarrow> r \<noteq> Inl ClientError)
   \<and> (\<forall>r w'. put pv fp c w = Some (r, w') \<longrightarrow> r \<noteq> Inl ClientError)
   \<and> (\<forall>r w'. get_last_modification_time pv fp w = Some (r, w') \<longrightarrow> r \<noteq> Inl ClientError)
   \<and> (\<forall>r w'. \<not> endswith_slash (prefix pv @ fp) \<longrightarrow> delete pv (Some fp) w = Some (r, w') \<longrightarrow>
         r \<noteq> Inl ClientError)
   \<and> (valid_path pv fp \<and> \<not> endswith_slash (prefix pv @ fp) \<and> prefix pv @ fp \<noteq> []
        \<and> store w = Unreachable \<longrightarrow>
          (\<exists>w'. put pv fp c w = Some (Inl EndpointConnectionError, w'))
        \<and> (\<exists>w'. get_last_modification_time pv fp w = Some (Inl EndpointConnectionError, w'))
        \<and> (\<exists>w'. get_fd pv fp None w = Some (Inl EndpointConnectionError, w'))
        \<and> (\<forall>w1. invalidate (prefix pv @ fp) w = Some (Inr (), w1) \<longrightarrow>
               (\<exists>w'. delete pv (Some fp) w = Some (Inl EndpointConnectionError, w'))))
   \<and> (valid_path pv fp \<and> prefix pv @ fp = [] \<longrightarrow>
          put pv fp c w = Some (Inl ParamValidationError, w)
        \<and> get_last_modification_time pv fp w = Some (Inl ParamValidationError, w)
        \<and> get_fd pv fp None w = Some (Inl ParamValidationError, w))
   \<and> (store w = Rejecting \<longrightarrow>
         (\<exists>w'. list_objects pv folders files recursive w = Some (Inl ClientError, w')))"
proof (intro conjI allI impI)
  assume a: "\<not> valid_path pv fp \<or> endswith_slash (prefix pv @ fp)"
  then show "get_fd pv fp t w = Some (Inl NotFoundException, w)" by (rule get_fd_rejects)
  from a show "put pv fp c w = Some (Inl NotFoundException, w)"
    by (auto simp: put_def checkpath_def then_do_def Let_def)
  from a show "get_last_modification_time pv fp w = Some (Inl NotFoundException, w)"
    by (auto simp: get_last_modification_time_def checkpath_def then_do_def Let_def)
next
  assume a: "valid_path pv fp \<and> \<not> endswith_slash (prefix pv @ fp) \<and> prefix pv @ fp \<noteq> []"
    and s: "store w = Rejecting"
  from a have ne: "prefix pv @ fp \<noteq> []" by simp
  show "\<exists>w'. put pv fp c w = Some (Inl NotFoundException, w')"
    using a remote_put_rejected[OF ne s, of c]
    by (simp add: put_def checkpath_def then_do_def Let_def put_file_remote_def except_ClientError_def)
next
  fix w1
  assume a: "valid_path pv fp \<and> \<not> endswith_slash (prefix pv @ fp) \<and> prefix pv @ fp \<noteq> []"
    and s: "store w = Rejecting"
    and i: "invalidate (prefix pv @ fp) w = Some (Inr (), w1)"
  from a have ne: "prefix pv @ fp \<noteq> []" by simp
  from invalidate_same_store[OF i] s have s1: "store w1 = Rejecting" by (simp add: same_store_def)
  from a have "delete pv (Some fp) w = delete_object (prefix pv @ fp) w"
    by (simp add: delete_file_path)
  then show "\<exists>w'. delete pv (Some fp) w = Some (Inl NotFoundException, w')"
    using i remote_delete_rejected[OF ne s1]
    by (simp add: delete_object_def then_do_def except_ClientError_def)
next
  assume a: "valid_path pv fp \<and> \<not> endswith_slash (prefix pv @ fp) \<and> prefix pv @ fp \<noteq> []"
    and s: "store w = Rejecting \<or> (store w = Up \<and> map_of (bucket w) (prefix pv @ fp) = None)"
  from a have ne: "prefix pv @ fp \<noteq> []" by simp
  show "\<exists>w'. get_last_modification_time pv fp w = Some (Inl NotFoundException, w')"
    using a remote_head_error[OF ne s]
    by (simp add: get_last_modification_time_def checkpath_def then_do_def Let_def except_ClientError_def)
  show "\<exists>w'. get_fd pv fp None w = Some (Inl NotFoundException, w')"
    using a remote_head_error[OF ne s]
    by (simp add: get_fd_def checkpath_def then_do_def Let_def except_ClientError_def)
next
  fix ts w1
  assume a: "valid_path pv fp \<and> \<not> endswith_slash (prefix pv @ fp) \<and> prefix pv @ fp \<noteq> []"
    and s: "store w = Rejecting \<or> (store w = Up \<and> map_of (bucket w) (prefix pv @ fp) = None)"
    and g: "get (prefix pv @ fp) ts w = Some (Inr None, w1)"
  from a have ne: "prefix pv @ fp \<noteq> []" by simp
  from get_same_store[OF g] s
  have s1: "store w1 = Rejecting \<or> (store w1 = Up \<and> map_of (bucket w1) (prefix pv @ fp) = None)"
    by (simp add: same_store_def)
  show "\<exists>w'. get_fd pv fp (Some ts) w = Some (Inl NotFoundException, w')"
    using a g remote_get_error[OF ne s1]
    by (simp add: get_fd_def checkpath_def then_do_def Let_def except_ClientError_def)
next
  fix r w' assume "get_fd pv fp t w = Some (r, w')"
  then show "r \<noteq> Inl ClientError" by (rule get_fd_no_ClientError)
next
  fix r w' assume "put pv fp c w = Some (r, w')"
  then show "r \<noteq> Inl ClientError" by (rule put_no_ClientError)
next
  fix r w' assume "get_last_modification_time pv fp w = Some (r, w')"
  then show "r \<noteq> Inl ClientError" by (rule get_last_modification_time_no_ClientError)
next
  fix r w' assume ns: "\<not> endswith_slash (prefix pv @ fp)"
    and d: "delete pv (Some fp) w = Some (r, w')"
  show "r \<noteq> Inl ClientError"
  proof (cases "valid_path pv fp")
    case True
    from d have "delete_object (prefix pv @ fp) w = Some (r, w')"
      unfolding delete_file_path[OF True ns] .
    then show ?thesis unfolding delete_object_def by (rule except_ClientError_result)
  next
    case False
    with d show ?thesis by (auto simp: delete_def checkpath_def then_do_def Let_def)
  qed
next
  assume a: "valid_path pv fp \<and> \<not> endswith_slash (prefix pv @ fp) \<and> prefix pv @ fp \<noteq> []
             \<and> store w = Unreachable"
  then show "\<exists>w'. put pv fp c w = Some (Inl EndpointConnectionError, w')"
    by (simp add: put_def checkpath_def then_do_def Let_def put_file_remote_def except_ClientError_def
                  remote_put_def store_failure_def)
  from a show "\<exists>w'. get_last_modification_time pv fp w = Some (Inl EndpointConnectionError, w')"
    by (simp add: get_last_modification_time_def checkpath_def then_do_def Let_def except_ClientError_def
                  remote_head_def store_failure_def)
  from a show "\<exists>w'. get_fd pv fp None w = Some (Inl EndpointConnectionError, w')"
    by (simp add: get_fd_def checkpath_def then_do_def Let_def except_ClientError_def
                  remote_head_def store_failure_def)
next
  fix w1
  assume a: "valid_path pv fp \<and> \<not> endswith_slash (prefix pv @ fp) \<and> prefix pv @ fp \<noteq> []
             \<and> store w = Unreachable"
    and i: "invalidate (prefix pv @ fp) w = Some (Inr (), w1)"
  from invalidate_same_store[OF i] a have s1: "store w1 = Unreachable" by (simp add: same_store_def)
  from a have "delete pv (Some fp) w = delete_object (prefix pv @ fp) w"
    by (simp add: delete_file_path)
  then show "\<exists>w'. delete pv (Some fp) w = Some (Inl EndpointConnectionError, w')"
    using i s1 a
    by (simp add: delete_object_def then_do_def except_ClientError_def remote_delete_def
                  store_failure_def Let_def)
next
  assume a: "valid_path pv fp \<and> prefix pv @ fp = []"
  then have ne: "\<not> endswith_slash (prefix pv @ fp)" by (simp add: endswith_slash_def)
  from a ne show "put pv fp c w = Some (Inl ParamValidationError, w)"
    by (auto simp: put_def checkpath_def then_do_def Let_def put_file_remote_def except_ClientError_def
                  remote_put_def)
  from a ne show "get_last_modification_time pv fp w = Some (Inl ParamValidationError, w)"
    by (auto simp: get_last_modification_time_def checkpath_def then_do_def Let_def except_ClientError_def
                  remote_head_def)
  from a ne show "get_fd pv fp None w = Some (Inl ParamValidationError, w)"
    by (auto simp: get_fd_def checkpath_def then_do_def Let_def except_ClientError_def
                  remote_head_def)
next
  assume "store w = Rejecting"
  then show "\<exists>w'. list_objects pv folders files recursive w = Some (Inl ClientError, w')"
    by (simp add: list_objects_def then_do_def remote_list_def remote_common_prefixes_def
                  store_failure_def Let_def)
qed

text \<open>
  The amended claim with a path that ends in a slash, with a store that rejects the
  requests, and with a key that is not in the bucket.
\<close>

theorem ClientError_becomes_NotFound_witness:
  "\<exists>w1 w2 w3 w4 w5 w6 w7.
      get_fd root_provider ''d/'' None served_world = Some (Inl NotFoundException, served_world)
      \<and> put root_provider ''d/'' ''new'' served_world = Some (Inl NotFoundException, served_world)
      \<and> put root_provider ''g.txt'' ''new'' (served_world\<lparr>store := Rejecting\<rparr>)
          = Some (Inl NotFoundException, w1)
      \<and> delete root_provider (Some ''f.txt'') (served_world\<lparr>store := Rejecting\<rparr>)
          = Some (Inl NotFoundException, w2)
      \<and> get_last_modification_time root_provider ''g.txt'' served_world
          = Some (Inl NotFoundException, w3)
      \<and> get_fd root_provider ''g.txt'' None served_world = Some (Inl NotFoundException, w4)
      \<and> get_fd root_provider ''g.txt'' (Some 3) served_world = Some (Inl NotFoundException, w5)
      \<and> get_fd root_provider ''f.txt'' None (served_world\<lparr>store := Unreachable\<rparr>)
          = Some (Inl EndpointConnectionError, w6)
      \<and> put root_provider [] ''new'' served_world = Some (Inl ParamValidationError, served_world)
      \<and> list_objects root_provider True True True (served_world\<lparr>store := Rejecting\<rparr>)
          = Some (Inl ClientError, w7)"
proof -
  let ?rej = "served_world\<lparr>store := Rejecting\<rparr>"
  have pre: "prefix root_provider = []" by code_simp
  have sl: "endswith_slash ''d/''" by code_simp
  have g: "valid_path root_provider ''g.txt'' \<and> \<not> endswith_slash ''g.txt'' \<and> ''g.txt'' \<noteq> []"
    by code_simp
  have f: "valid_path root_provider ''f.txt'' \<and> \<not> endswith_slash ''f.txt'' \<and> ''f.txt'' \<noteq> []"
    by code_simp
  have rej: "store ?rej = Rejecting" by simp
  have up: "store served_world = Up \<and> map_of (bucket served_world) ''g.txt'' = None" by code_simp
  have "map_option fst (invalidate ''f.txt'' ?rej) = Some (Inr ())" by code_simp
  then obtain v where i: "invalidate ''f.txt'' ?rej = Some (Inr (), v)" by auto
  have "map_option fst (get ''g.txt'' 3 served_world) = Some (Inr None)" by code_simp
  then obtain u where m: "get ''g.txt'' 3 served_world = Some (Inr None, u)" by auto
  note t0 = ClientError_becomes_NotFound[where pv = root_provider and fp = "''d/''"
              and w = served_world and t = None and c = "''new''", unfolded pre append_Nil]
  note t1 = ClientError_becomes_NotFound[where pv = root_provider and fp = "''g.txt''"
              and w = ?rej and t = None and c = "''new''", unfolded pre append_Nil]
  note t2 = ClientError_becomes_NotFound[where pv = root_provider and fp = "''f.txt''"
              and w = ?rej and t = None and c = "''new''", unfolded pre append_Nil]
  note t3 = ClientError_becomes_NotFound[where pv = root_provider and fp = "''g.txt''"
              and w = served_world and t = None and c = "''new''", unfolded pre append_Nil]
  from t0[THEN conjunct1] sl
  have a0: "get_fd root_provider ''d/'' None served_world = Some (Inl NotFoundException, served_world)"
    and b0: "put root_provider ''d/'' ''new'' served_world = Some (Inl NotFoundException, served_world)"
    by simp_all
  from t1[THEN conjunct2, THEN conjunct1] g rej obtain w1 where
    a1: "put root_provider ''g.txt'' ''new'' ?rej = Some (Inl NotFoundException, w1)"
    by blast
  from t2[THEN conjunct2, THEN conjunct1] f rej i obtain w2 where
    a2: "delete root_provider (Some ''f.txt'') ?rej = Some (Inl NotFoundException, w2)"
    by blast
  from t3[THEN conjunct2, THEN conjunct1] g up m obtain w3 w4 w5 where
    a3: "get_last_modification_time root_provider ''g.txt'' served_world = Some (Inl NotFoundException, w3)"
    and a4: "get_fd root_provider ''g.txt'' None served_world = Some (Inl NotFoundException, w4)"
    and a5: "get_fd root_provider ''g.txt'' (Some 3) served_world = Some (Inl NotFoundException, w5)"
    by blast
  let ?unr = "served_world\<lparr>store := Unreachable\<rparr>"
  have unr: "store ?unr = Unreachable" by simp
  have e: "valid_path root_provider [] \<and> ([]::string) = []" by code_simp
  note t4 = ClientError_becomes_NotFound[where pv = root_provider and fp = "''f.txt''"
              and w = ?unr and t = None and c = "''new''", unfolded pre append_Nil]
  note t5 = ClientError_becomes_NotFound[where pv = root_provider and fp = "[]"
              and w = served_world and t = None and c = "''new''", unfolded pre append_Nil]
  note t6 = ClientError_becomes_NotFound[where pv = root_provider and fp = "''g.txt''"
              and w = ?rej and t = None and c = "''new''" and folders = True and files = True
              and recursive = True]
  from t4[THEN conjunct2, THEN conjunct2, THEN conjunct2, THEN conjunct2, THEN conjunct2,
          THEN conjunct2, THEN conjunct1] f unr
  obtain w6 where a6: "get_fd root_provider ''f.txt'' None ?unr = Some (Inl EndpointConnectionError, w6)"
    by blast
  from t5[THEN conjunct2, THEN conjunct2, THEN conjunct2, THEN conjunct2, THEN conjunct2,
          THEN conjunct2, THEN conjunct2, THEN conjunct1] e
  have a7: "put root_provider [] ''new'' served_world = Some (Inl ParamValidationError, served_world)"
    by blast
  from t6[THEN conjunct2, THEN conjunct2, THEN conjunct2, THEN conjunct2, THEN conjunct2,
          THEN conjunct2, THEN conjunct2, THEN conjunct2] rej
  obtain w7 where a8: "list_objects root_provider True True True ?rej = Some (Inl ClientError, w7)"
    by blast
  from a0 b0 a1 a2 a3 a4 a5 a6 a7 a8 show ?thesis by blast
qed
end
